theory Spec2Isabelle
  imports Complex_Main "HOL-Library.Word"
begin

section \<open>Machine types\<close>

type_synonym u32 = "32 word"

section \<open>Outcomes\<close>

text \<open>
  Every error of the readers and the writer ends the process after a report on
  \<open>stderr\<close> (\<open>exit(1)\<close> or \<open>abort()\<close>): that is \<open>Fatal\<close> with the report's text.
  \<open>Undefined\<close> marks an execution that C++ leaves undefined: a read or write outside an
  array, through a null or unallocated pointer, of a variable that was never assigned, or
  a signed overflow. \<open>Uncaught\<close> is a C++ exception that nothing catches (a container
  that finds no memory throws \<open>std::bad_alloc\<close> or \<open>std::length_error\<close>, and \<open>main\<close> has no
  handler): the process ends in \<open>std::terminate\<close>, and the program itself reports nothing.
  \<open>Inr\<close> is the normal return.
\<close>

datatype failure = Fatal string | Undefined | Uncaught

text \<open>\<open>p[k]\<close> for an array of known extent; \<open>k\<close> is the signed element offset.\<close>

definition array_read :: "'a list \<Rightarrow> int \<Rightarrow> failure + 'a" where
  "array_read a k = (if 0 \<le> k \<and> k < int (length a) then Inr (a ! nat k) else Inl Undefined)"

text \<open>The same through a pointer that may be null.\<close>

definition ptr_read :: "'a list option \<Rightarrow> int \<Rightarrow> failure + 'a" where
  "ptr_read p k = (case p of None \<Rightarrow> Inl Undefined | Some a \<Rightarrow> array_read a k)"

section \<open>The seam-sequence decoder (the loop in \<open>main\<close>)\<close>

text \<open>
  The decoder indexes the vector \<open>seamVertexSequenceArrayFromMCUT\<close> with
  \<open>operator[]\<close> and copies with \<open>memcpy\<close> from \<open>data() + runningOffset\<close>; neither
  consults \<open>size()\<close>, and there is no other test of the offset in the loop. A read at or
  past \<open>size()\<close> is undefined in C++ (for an empty vector already the first read): in the
  model every element read goes through \<open>array_read\<close>, and a copy that would leave the
  vector's elements is \<open>Undefined\<close> as a whole.

  The loop allocates twice per sequence: \<open>push_back\<close> on the result, and \<open>resize\<close> of the
  new record's index vector to the declared length (up to \<open>2^32 - 1\<close> words). Either throws
  when the memory is not there, which nothing catches. Whether memory is there is not a
  matter of the buffer, so it is a parameter: \<open>push_back_ok A k\<close> says that the
  \<open>push_back\<close> onto a result of \<open>k\<close> records succeeds, \<open>resize_ok A n\<close> that the
  \<open>resize\<close> to \<open>n\<close> words does.
\<close>

record allocator =
  push_back_ok :: "nat \<Rightarrow> bool"
  resize_ok :: "nat \<Rightarrow> bool"

text \<open>An allocator that grants every request.\<close>

definition ample :: allocator where
  "ample = \<lparr>push_back_ok = (\<lambda>k. True), resize_ok = (\<lambda>n. True)\<rparr>"

text \<open>
  One pass of the \<open>for\<close> loop per remaining sequence; \<open>it\<close> is
  \<open>numSeamVertexSequenceIter\<close>, the number of records already pushed. \<open>off\<close> is
  \<open>runningOffset\<close>, a \<open>uint32_t\<close>: \<open>runningOffset++\<close> and \<open>runningOffset += size\<close> wrap
  modulo \<open>2^32\<close>. The statements are in the order of the source: \<open>push_back\<close>, the read
  of the length, \<open>resize\<close>, the read of the loop flag, \<open>memcpy\<close>, the advance of the
  offset. The \<open>memcpy\<close> source is the pointer \<open>data() + runningOffset\<close>, so it copies the
  \<open>arraySize\<close> elements from position \<open>unat off\<close> on, without wrap-around; it is defined
  when they all lie in the vector (a copy of no element from a position up to \<open>size()\<close> is
  taken to do nothing).
\<close>

fun seam_loop :: "allocator \<Rightarrow> u32 list \<Rightarrow> nat \<Rightarrow> nat \<Rightarrow> u32 \<Rightarrow> failure + (u32 list \<times> u32) list" where
  "seam_loop A v 0 it off = Inr []"
| "seam_loop A v (Suc k) it off =
     (if \<not> push_back_ok A it then Inl Uncaught
      else (case array_read v (uint off) of
        Inl e \<Rightarrow> Inl e
      | Inr arraySize \<Rightarrow>
          (if \<not> resize_ok A (unat arraySize) then Inl Uncaught
           else (case array_read v (uint (off + 1)) of
             Inl e \<Rightarrow> Inl e
           | Inr isLoop \<Rightarrow>
               (if length v < unat (off + 1 + 1) + unat arraySize then Inl Undefined
                else (case seam_loop A v k (Suc it) (off + 1 + 1 + arraySize) of
                  Inl e \<Rightarrow> Inl e
                | Inr rest \<Rightarrow>
                    Inr ((take (unat arraySize) (drop (unat (off + 1 + 1)) v), isLoop) # rest)))))))"

text \<open>
  \<open>runningOffset\<close> starts at 0; the first element read is the number of sequences, and the
  loop starts behind it.
\<close>

definition seam_decode :: "allocator \<Rightarrow> u32 list \<Rightarrow> failure + (u32 list \<times> u32) list" where
  "seam_decode A v =
     (case array_read v (uint (0 :: u32)) of
        Inl e \<Rightarrow> Inl e
      | Inr numSeamVertexSequences \<Rightarrow> seam_loop A v (unat numSeamVertexSequences) 0 (0 + 1))"

text \<open>
  The layout of the array as the comment above the decoder describes it: the number of
  sequences, then for each sequence its number of vertices, its loop flag and its vertex
  indices.
\<close>

definition seam_group :: "u32 list \<times> u32 \<Rightarrow> u32 list" where
  "seam_group r = of_nat (length (fst r)) # snd r # fst r"

definition seam_layout :: "(u32 list \<times> u32) list \<Rightarrow> u32 list" where
  "seam_layout rs = of_nat (length rs) # concat (map seam_group rs)"

text \<open>The allocator grants what decoding the records \<open>rs\<close> asks for.\<close>

definition grants :: "allocator \<Rightarrow> (u32 list \<times> u32) list \<Rightarrow> bool" where
  "grants A rs = (list_all (push_back_ok A) [0..<length rs]
                  \<and> list_all (\<lambda>r. resize_ok A (length (fst r))) rs)"

text \<open>
  The format's own reading of a buffer, independent of the decoder: \<open>groups_fit k xs\<close> says
  that \<open>xs\<close> starts with \<open>k\<close> groups, each a length, a flag and as many indices as the
  length declares; \<open>seam_complete b\<close> says that \<open>b\<close> holds a count and that many groups.
  A buffer that is not complete is one whose declared lengths reach past its end.
\<close>

fun groups_fit :: "nat \<Rightarrow> u32 list \<Rightarrow> bool" where
  "groups_fit 0 xs = True"
| "groups_fit (Suc k) xs =
     (case xs of
        n # lp # ys \<Rightarrow> unat n \<le> length ys \<and> groups_fit k (drop (unat n) ys)
      | _ \<Rightarrow> False)"

definition seam_complete :: "u32 list \<Rightarrow> bool" where
  "seam_complete b = (case b of [] \<Rightarrow> False | n # xs \<Rightarrow> groups_fit (unat n) xs)"

section \<open>Text produced and consumed by the C library\<close>

definition NUL :: char where "NUL = CHR 0x00"
definition NL :: char where "NL = CHR 0x0A"
definition CR :: char where "CR = CHR 0x0D"

definition digit_char :: "nat \<Rightarrow> char" where
  "digit_char d = ''0123456789'' ! d"

definition is_digit :: "char \<Rightarrow> bool" where
  "is_digit c = (c \<in> set ''0123456789'')"

definition digit_val :: "char \<Rightarrow> nat" where
  "digit_val c = of_char c - 48"

text \<open>\<open>isspace\<close> in the C locale: space, \<open>\t \n \v \f \r\<close>.\<close>

definition is_space :: "char \<Rightarrow> bool" where
  "is_space c = (c \<in> {CHR 0x20, CHR 0x09, CHR 0x0A, CHR 0x0B, CHR 0x0C, CHR 0x0D})"

subsection \<open>\<open>printf\<close> conversions\<close>

fun fmt_nat :: "nat \<Rightarrow> string" where
  "fmt_nat n = (if n < 10 then [digit_char n] else fmt_nat (n div 10) @ [digit_char (n mod 10)])"

declare fmt_nat.simps [simp del]

text \<open>\<open>%d\<close> of an \<open>int\<close> and \<open>%u\<close> of an \<open>unsigned\<close>.\<close>

definition fmt_d :: "int \<Rightarrow> string" where
  "fmt_d i = (if i < 0 then CHR ''-'' # fmt_nat (nat (- i)) else fmt_nat (nat i))"

definition fmt_u :: "nat \<Rightarrow> string" where
  "fmt_u n = fmt_nat n"

text \<open>
  Coordinates are \<open>double\<close>s. The model keeps a finite coordinate as the rational number it
  denotes. Infinities and NaNs are outside the model, and so is the sign of a zero: \<open>-0.0\<close>
  and \<open>0.0\<close> are the same number here (\<open>%f\<close> prints the first as \<open>-0.000000\<close>, and
  \<open>%lf\<close> reads that text as \<open>-0.0\<close> again). \<open>%f\<close> prints the exact value of the
  \<open>double\<close> rounded to six decimals, ties to even, with the sign first.
\<close>

definition round_half_even :: "rat \<Rightarrow> int" where
  "round_half_even x =
     (let n = \<lfloor>x\<rfloor>; f = x - of_int n
      in if f < 1 / 2 then n else if 1 / 2 < f then n + 1 else if even n then n else n + 1)"

definition six_digits :: "nat \<Rightarrow> string" where
  "six_digits m = map (\<lambda>k. digit_char (m div 10 ^ k mod 10)) [5, 4, 3, 2, 1, 0]"

definition fmt_f :: "rat \<Rightarrow> string" where
  "fmt_f x =
     (let m = nat (round_half_even (\<bar>x\<bar> * 1000000));
          body = fmt_nat (m div 1000000) @ ''.'' @ six_digits (m mod 1000000)
      in if x < 0 then CHR ''-'' # body else body)"

section \<open>\<open>writeOFF\<close>\<close>

text \<open>
  The arrays come with their extents; \<open>pVertices\<close>, \<open>pFaceSizes\<close> and \<open>pEdges\<close> may be
  null. The result is the text written to the file. The loop counters \<open>i\<close> and \<open>j\<close> run
  below an \<open>int\<close> bound and are naturals here.
\<close>

function write_vertices :: "rat list option \<Rightarrow> nat \<Rightarrow> nat \<Rightarrow> failure + string" where
  "write_vertices pVertices n i =
     (if i < n then
        (case ptr_read pVertices (int i * 3 + 0) of Inl e \<Rightarrow> Inl e | Inr x \<Rightarrow>
        (case ptr_read pVertices (int i * 3 + 1) of Inl e \<Rightarrow> Inl e | Inr y \<Rightarrow>
        (case ptr_read pVertices (int i * 3 + 2) of Inl e \<Rightarrow> Inl e | Inr z \<Rightarrow>
        (case write_vertices pVertices n (i + 1) of Inl e \<Rightarrow> Inl e | Inr rest \<Rightarrow>
           Inr (fmt_f x @ '' '' @ fmt_f y @ '' '' @ fmt_f z @ [NL] @ rest)))))
      else Inr [])"
  by pat_completeness auto
termination
  by (relation "measure (\<lambda>(p, n, i). n - i)") auto

declare write_vertices.simps [simp del]

text \<open>
  The inner loop over the corners of one face: \<open>fptr = pFaceVertexIndices + faceBaseOffset + j\<close>
  and \<open>" %d"\<close> of \<open>*fptr\<close>, an unsigned value printed as an \<open>int\<close>.
\<close>

function write_corners :: "u32 list \<Rightarrow> int \<Rightarrow> nat \<Rightarrow> nat \<Rightarrow> failure + string" where
  "write_corners pFaceVertexIndices faceBaseOffset n j =
     (if j < n then
        (case array_read pFaceVertexIndices (faceBaseOffset + int j) of Inl e \<Rightarrow> Inl e | Inr v \<Rightarrow>
        (case write_corners pFaceVertexIndices faceBaseOffset n (j + 1) of Inl e \<Rightarrow> Inl e | Inr rest \<Rightarrow>
           Inr ('' '' @ fmt_d (sint v) @ rest)))
      else Inr [])"
  by pat_completeness auto
termination
  by (relation "measure (\<lambda>(p, b, n, j). n - j)") auto

declare write_corners.simps [simp del]

text \<open>
  The loop over the faces. \<open>faceBaseOffset\<close> is an \<open>int\<close> to which the \<open>uint32_t\<close>
  \<open>faceVertexCount\<close> is added: the sum is formed modulo \<open>2^32\<close> and read back as an
  \<open>int\<close>, so the variable is kept as a 32-bit word and used through \<open>sint\<close>.
  The count is printed, and bounds the inner loop, as \<open>(int)faceVertexCount\<close>.
\<close>

function write_faces :: "u32 list \<Rightarrow> u32 list option \<Rightarrow> nat \<Rightarrow> nat \<Rightarrow> u32 \<Rightarrow> failure + string" where
  "write_faces pFaceVertexIndices pFaceSizes n i faceBaseOffset =
     (if i < n then
        (case (case pFaceSizes of None \<Rightarrow> Inr 3 | Some fs \<Rightarrow> array_read fs (int i)) of
           Inl e \<Rightarrow> Inl e
         | Inr faceVertexCount \<Rightarrow>
        (case write_corners pFaceVertexIndices (sint faceBaseOffset) (nat (sint faceVertexCount)) 0 of
           Inl e \<Rightarrow> Inl e
         | Inr corners \<Rightarrow>
        (case write_faces pFaceVertexIndices pFaceSizes n (i + 1) (faceBaseOffset + faceVertexCount) of
           Inl e \<Rightarrow> Inl e
         | Inr rest \<Rightarrow> Inr (fmt_d (sint faceVertexCount) @ corners @ [NL] @ rest))))
      else Inr [])"
  by pat_completeness auto
termination
  by (relation "measure (\<lambda>(p, s, n, i, b). n - i)") auto

declare write_faces.simps [simp del]

function write_edges :: "u32 list option \<Rightarrow> nat \<Rightarrow> nat \<Rightarrow> failure + string" where
  "write_edges pEdges n i =
     (if i < n then
        (case ptr_read pEdges (int i * 2 + 0) of Inl e \<Rightarrow> Inl e | Inr a \<Rightarrow>
        (case ptr_read pEdges (int i * 2 + 1) of Inl e \<Rightarrow> Inl e | Inr b \<Rightarrow>
        (case write_edges pEdges n (i + 1) of Inl e \<Rightarrow> Inl e | Inr rest \<Rightarrow>
           Inr (fmt_u (unat a) @ '' '' @ fmt_u (unat b) @ [NL] @ rest))))
      else Inr [])"
  by pat_completeness auto
termination
  by (relation "measure (\<lambda>(p, n, i). n - i)") auto

declare write_edges.simps [simp del]

text \<open>
  \<open>writeOFF\<close>. \<open>opened\<close> tells whether \<open>fopen\<close> succeeded. The three counts are
  \<open>uint32_t\<close>s printed with \<open>%d\<close> and cast to \<open>int\<close> as loop bounds: a count of
  \<open>2^31\<close> or more is negative there and its loop does not run.
\<close>

definition writeOFF ::
  "bool \<Rightarrow> rat list option \<Rightarrow> u32 list \<Rightarrow> u32 list option \<Rightarrow> u32 list option
     \<Rightarrow> u32 \<Rightarrow> u32 \<Rightarrow> u32 \<Rightarrow> failure + string" where
  "writeOFF opened pVertices pFaceVertexIndices pFaceSizes pEdges numVertices numFaces numEdges =
     (if \<not> opened then Inl (Fatal ''error: failed to open'')
      else
       (case write_vertices pVertices (nat (sint numVertices)) 0 of Inl e \<Rightarrow> Inl e | Inr vs \<Rightarrow>
       (case write_faces pFaceVertexIndices pFaceSizes (nat (sint numFaces)) 0 0 of
          Inl e \<Rightarrow> Inl e | Inr fs \<Rightarrow>
       (case write_edges pEdges (nat (sint numEdges)) 0 of Inl e \<Rightarrow> Inl e | Inr es \<Rightarrow>
          Inr (''OFF'' @ [NL]
               @ fmt_d (sint numVertices) @ '' '' @ fmt_d (sint numFaces) @ '' ''
               @ fmt_d (sint numEdges) @ [NL]
               @ vs @ fs @ es)))))"

subsection \<open>The face lines, as the format describes them\<close>

text \<open>
  One line per face: the corner count, then that many indices, each after one space.
  \<open>face_start fs i\<close> is the position of the first corner of face \<open>i\<close> in the
  corner-index array when the faces lie there one after the other.
\<close>

definition face_start :: "u32 list \<Rightarrow> nat \<Rightarrow> nat" where
  "face_start fs i = sum_list (map unat (take i fs))"

definition corner_fields :: "u32 list \<Rightarrow> nat \<Rightarrow> nat \<Rightarrow> string" where
  "corner_fields idx start k = concat (map (\<lambda>j. '' '' @ fmt_d (sint (idx ! (start + j)))) [0..<k])"


definition sized_line :: "u32 list \<Rightarrow> u32 list \<Rightarrow> nat \<Rightarrow> string" where
  "sized_line idx fs i =
     fmt_d (int (unat (fs ! i))) @ corner_fields idx (face_start fs i) (unat (fs ! i)) @ [NL]"

section \<open>\<open>sscanf\<close> conversions\<close>

definition dec :: "string \<Rightarrow> nat" where
  "dec ds = foldl (\<lambda>a c. 10 * a + digit_val c) 0 ds"

text \<open>
  \<open>%d\<close>: white space is skipped, then an optional sign and at least one digit are
  converted. The result is the number read and the text after it, or \<open>None\<close> when nothing
  can be converted. Each conversion of a format such as \<open>"%d %d %d"\<close> skips its own leading
  white space, so the blanks in the format add nothing.
\<close>

definition scan_int :: "string \<Rightarrow> (int \<times> string) option" where
  "scan_int s =
     (let t = dropWhile is_space s;
          neg = (t \<noteq> [] \<and> hd t = CHR ''-'');
          u = (if t \<noteq> [] \<and> (hd t = CHR ''-'' \<or> hd t = CHR ''+'') then tl t else t);
          ds = takeWhile is_digit u
      in if ds = [] then None
         else Some (if neg then - int (dec ds) else int (dec ds), drop (length ds) u))"

text \<open>
  The number is stored into an \<open>int\<close>. C leaves the conversion undefined when the number
  does not fit.
\<close>

definition c_int :: "int \<Rightarrow> failure + int" where
  "c_int v = (if - (2 ^ 31) \<le> v \<and> v < 2 ^ 31 then Inr v else Inl Undefined)"

text \<open>
  The conversions of one \<open>sscanf\<close> call, in order, up to the first that fails: the list of
  the values converted; its length is the number of assignments made.
\<close>

fun scan_seq :: "(string \<Rightarrow> ('a \<times> string) option) \<Rightarrow> nat \<Rightarrow> string \<Rightarrow> 'a list" where
  "scan_seq f 0 s = []"
| "scan_seq f (Suc n) s = (case f s of None \<Rightarrow> [] | Some (x, r) \<Rightarrow> x # scan_seq f n r)"

text \<open>
  \<open>%lf\<close> belongs to the C library. The readers take it as a parameter \<open>lf\<close>: from the text
  at the read position to the converted \<open>double\<close> and the text after it (\<open>None\<close>: no
  conversion). \<open>scan_lf\<close> below is that conversion for decimal numbers.

  A \<open>double\<close> has a significand of 53 bits and a power of two not below \<open>2^-1074\<close>, and the
  library stores the \<open>double\<close> nearest to the number it read, ties to the even significand.
  \<open>bit_length n\<close> is the number of binary digits of \<open>n\<close>, \<open>pow2 e\<close> is \<open>2^e\<close>, and
  \<open>binade x\<close> is the \<open>k\<close> with \<open>2^k \<le> x < 2^(k+1)\<close> for a positive \<open>x\<close>. \<open>to_double x\<close>
  is the \<open>double\<close> nearest to \<open>x\<close>; numbers of magnitude \<open>2^1024\<close> and more, which the
  library turns into an infinity, are outside the model.
\<close>

function bit_length :: "int \<Rightarrow> int" where
  "bit_length n = (if n \<le> 0 then 0 else 1 + bit_length (n div 2))"
  by pat_completeness auto
termination
  by (relation "measure nat") auto

declare bit_length.simps [simp del]

definition pow2 :: "int \<Rightarrow> rat" where
  "pow2 e = (if 0 \<le> e then 2 ^ nat e else 1 / 2 ^ nat (- e))"

definition binade :: "rat \<Rightarrow> int" where
  "binade x =
     (let k = bit_length (fst (quotient_of x)) - bit_length (snd (quotient_of x))
      in if pow2 k \<le> x then k else k - 1)"

definition to_double :: "rat \<Rightarrow> rat" where
  "to_double x =
     (if x = 0 then 0
      else
       (let e = max (binade \<bar>x\<bar> - 52) (- 1074);
            m = round_half_even (\<bar>x\<bar> / pow2 e)
        in (if x < 0 then - 1 else 1) * of_int m * pow2 e))"

text \<open>
  A finite \<open>double\<close>, as a rational number.
\<close>

definition is_double :: "rat \<Rightarrow> bool" where
  "is_double x = (to_double x = x \<and> \<bar>x\<bar> < pow2 1024)"

text \<open>
  \<open>scan_decimal\<close> reads a decimal number (white space, sign, digits, fraction, exponent)
  and gives the number the text denotes; \<open>scan_lf\<close> stores it as a \<open>double\<close>. The other
  forms the library accepts (hexadecimal, \<open>inf\<close>, \<open>nan\<close>) are not read as such here; no
  text in this development has them, and \<open>%f\<close> of a finite value prints none.
\<close>

definition scan_exponent :: "string \<Rightarrow> int \<times> string" where
  "scan_exponent u =
     (if u \<noteq> [] \<and> (hd u = CHR ''e'' \<or> hd u = CHR ''E'') then
        (let v = tl u;
             neg = (v \<noteq> [] \<and> hd v = CHR ''-'');
             w = (if v \<noteq> [] \<and> (hd v = CHR ''-'' \<or> hd v = CHR ''+'') then tl v else v);
             ds = takeWhile is_digit w
         in if ds = [] then (0, u)
            else (if neg then - int (dec ds) else int (dec ds), drop (length ds) w))
      else (0, u))"

definition scan_decimal :: "string \<Rightarrow> (rat \<times> string) option" where
  "scan_decimal s =
     (let t = dropWhile is_space s;
          neg = (t \<noteq> [] \<and> hd t = CHR ''-'');
          u = (if t \<noteq> [] \<and> (hd t = CHR ''-'' \<or> hd t = CHR ''+'') then tl t else t);
          ip = takeWhile is_digit u;
          u1 = drop (length ip) u;
          pt = (u1 \<noteq> [] \<and> hd u1 = CHR ''.'');
          fp = (if pt then takeWhile is_digit (tl u1) else []);
          u2 = (if pt then drop (length fp) (tl u1) else u1)
      in if ip = [] \<and> fp = [] then None
         else
           (let m = of_nat (dec (ip @ fp)) / 10 ^ length fp;
                (ex, u3) = scan_exponent u2;
                v = (if 0 \<le> ex then m * 10 ^ nat ex else m / 10 ^ nat (- ex))
            in Some (if neg then - v else v, u3)))"

definition scan_lf :: "string \<Rightarrow> (rat \<times> string) option" where
  "scan_lf s = (case scan_decimal s of None \<Rightarrow> None | Some (v, r) \<Rightarrow> Some (to_double v, r))"

text \<open>\<open>strstr\<close>: the text from the first occurrence of the pattern on, \<open>None\<close> for \<open>NULL\<close>.\<close>

fun strstr :: "string \<Rightarrow> string \<Rightarrow> string option" where
  "strstr [] p = (if p = [] then Some [] else None)"
| "strstr (c # cs) p = (if take (length p) (c # cs) = p then Some (c # cs) else strstr cs p)"

section \<open>\<open>getline\<close> and \<open>readLine\<close>\<close>

text \<open>
  A file being read is the text not yet consumed; a file position is such a text.
  The line buffer holds a C string, so what the callers see of a line ends before its first
  NUL byte. The buffer is \<open>None\<close> while \<open>line\<close> is still \<open>NULL\<close>.

  \<open>getline\<close> returns \<open>-1\<close> at the end of the file and leaves the buffer as it is; otherwise
  it stores the next line, with its newline if it has one, and returns the number of bytes.
\<close>

definition cstr :: "string \<Rightarrow> string" where
  "cstr raw = takeWhile (\<lambda>c. c \<noteq> NUL) raw"

definition next_line :: "string \<Rightarrow> string \<times> string" where
  "next_line rest =
     (case dropWhile (\<lambda>c. c \<noteq> NL) rest of
        [] \<Rightarrow> (rest, [])
      | c # r \<Rightarrow> (takeWhile (\<lambda>c. c \<noteq> NL) rest @ [NL], r))"

definition getline :: "string \<Rightarrow> string option \<Rightarrow> int \<times> string \<times> string option" where
  "getline rest line =
     (if rest = [] then (- 1, rest, line)
      else (int (length (fst (next_line rest))), snd (next_line rest),
            Some (cstr (fst (next_line rest)))))"

text \<open>
  \<open>readLine\<close>: \<open>while (getline(line, len, file))\<close> runs its body whenever \<open>getline\<close>
  returns a value other than 0, so also on \<open>-1\<close>. The loop need not terminate: the result
  \<open>None\<close> stands for a call that never returns. Otherwise the result is the returned
  flag, the file position and the line buffer.
\<close>

partial_function (option) readLine ::
  "string \<Rightarrow> string option \<Rightarrow> (failure + bool \<times> string \<times> string option) option" where
  "readLine rest line =
     (case getline rest line of (ret, rest', line') \<Rightarrow>
        if ret \<noteq> 0 then
          (case line' of
             None \<Rightarrow> Some (Inl Undefined)
           | Some l \<Rightarrow>
               if 1 < length l \<and> hd l \<noteq> CHR ''#'' then Some (Inr (True, rest', line'))
               else readLine rest' line')
        else Some (Inr (False, rest', line')))"

declare readLine.simps [code]

section \<open>\<open>readOFF\<close>\<close>

text \<open>
  Sequencing of steps that may fail or not return: \<open>and_then m f\<close> continues with \<open>f\<close>
  on the value of a step that returned normally.
\<close>

record 'd off_mesh =
  pVertices :: "'d list"
  pFaceVertexIndices :: "u32 option list"
  pFaceSizes :: "u32 list"
  numVertices :: u32
  numFaces :: u32

text \<open>
  The element-count line: \<open>sscanf(line, "%d %d %d", numVertices, numFaces, &nedges)\<close>.
  A variable whose conversion is not reached keeps its value; the first two are the caller's
  \<open>unsigned int\<close>s and receive the bits of the \<open>int\<close>.
\<close>

definition scan_counts :: "string \<Rightarrow> u32 \<Rightarrow> u32 \<Rightarrow> failure + u32 \<times> u32" where
  "scan_counts l nv nf =
     (case scan_seq scan_int 3 l of
        [] \<Rightarrow> Inr (nv, nf)
      | [a] \<Rightarrow> (case c_int a of Inl e \<Rightarrow> Inl e | Inr a' \<Rightarrow> Inr (word_of_int a', nf))
      | [a, b] \<Rightarrow>
          (case c_int a of Inl e \<Rightarrow> Inl e | Inr a' \<Rightarrow>
          (case c_int b of Inl e \<Rightarrow> Inl e | Inr b' \<Rightarrow> Inr (word_of_int a', word_of_int b')))
      | a # b # c # _ \<Rightarrow>
          (case c_int a of Inl e \<Rightarrow> Inl e | Inr a' \<Rightarrow>
          (case c_int b of Inl e \<Rightarrow> Inl e | Inr b' \<Rightarrow>
          (case c_int c of Inl e \<Rightarrow> Inl e | Inr c' \<Rightarrow> Inr (word_of_int a', word_of_int b')))))"

text \<open>
  The vertex loop. \<open>x\<close>, \<open>y\<close> and \<open>z\<close> are not initialised, so a line with fewer than
  three numbers stores unassigned variables. The array has \<open>3 * numVertices\<close> slots and
  slot \<open>3 * i + k\<close> is written in the order of the slots: the array is the list of the values
  stored so far. The \<open>int\<close> expression \<open>(i * 3) + 2\<close> overflows from \<open>i = 715827882\<close> on.
\<close>

function read_vertices ::
  "(string \<Rightarrow> ('d \<times> string) option) \<Rightarrow> nat \<Rightarrow> nat \<Rightarrow> string \<Rightarrow> string option \<Rightarrow> 'd list
     \<Rightarrow> (failure + string \<times> string option \<times> 'd list) option" where
  "read_vertices lf n i rest line vs =
     (if i < n then
        (case readLine rest line of
           None \<Rightarrow> None
         | Some (Inl e) \<Rightarrow> Some (Inl e)
         | Some (Inr (lineOk, rest', line')) \<Rightarrow>
             if \<not> lineOk then Some (Inl (Fatal ''error: .off vertex not found''))
             else
               (case line' of
                  None \<Rightarrow> Some (Inl Undefined)
                | Some l \<Rightarrow>
                    (case scan_seq lf 3 l of
                       [x, y, z] \<Rightarrow>
                         if 2 ^ 31 \<le> int i * 3 + 2 then Some (Inl Undefined)
                         else read_vertices lf n (i + 1) rest' line' (vs @ [x, y, z])
                     | _ \<Rightarrow> Some (Inl Undefined))))
      else Some (Inr (rest, line, vs)))"
  by pat_completeness auto
termination
  by (relation "measure (\<lambda>(lf, n, i, rest, line, vs). n - i)") auto

declare read_vertices.simps [simp del]

text \<open>
  The first loop over the faces reads the leading count \<open>n\<close> of each line; \<open>n\<close> is not
  initialised. The sum \<open>numFaceIndices\<close> is an \<open>int\<close>.
\<close>

function read_face_sizes ::
  "nat \<Rightarrow> nat \<Rightarrow> string \<Rightarrow> string option \<Rightarrow> u32 list \<Rightarrow> int
     \<Rightarrow> (failure + string \<times> string option \<times> u32 list \<times> int) option" where
  "read_face_sizes nf i rest line sizes numFaceIndices =
     (if i < nf then
        (case readLine rest line of
           None \<Rightarrow> None
         | Some (Inl e) \<Rightarrow> Some (Inl e)
         | Some (Inr (lineOk, rest', line')) \<Rightarrow>
             if \<not> lineOk then Some (Inl (Fatal ''error: .off file face not found''))
             else
               (case line' of
                  None \<Rightarrow> Some (Inl Undefined)
                | Some l \<Rightarrow>
                    (case scan_int l of
                       None \<Rightarrow> Some (Inl Undefined)
                     | Some (v, r) \<Rightarrow>
                         (case c_int v of
                            Inl e \<Rightarrow> Some (Inl e)
                          | Inr n \<Rightarrow>
                              if n < 3 then
                                Some (Inl (Fatal ''error: invalid vertex count in file''))
                              else if 2 ^ 31 \<le> numFaceIndices + n then Some (Inl Undefined)
                              else read_face_sizes nf (i + 1) rest' line'
                                     (sizes @ [word_of_int n]) (numFaceIndices + n)))))
      else Some (Inr (rest, line, sizes, numFaceIndices)))"
  by pat_completeness auto
termination
  by (relation "measure (\<lambda>(nf, i, rest, line, sizes, t). nf - i)") auto

declare read_face_sizes.simps [simp del]

text \<open>
  An array obtained from \<open>malloc\<close>: a slot is \<open>None\<close> until it is written. A write outside
  the array is undefined.
\<close>

definition array_write :: "'a option list \<Rightarrow> int \<Rightarrow> 'a \<Rightarrow> failure + 'a option list" where
  "array_write a k v =
     (if 0 \<le> k \<and> k < int (length a) then Inr (a[nat k := Some v]) else Inl Undefined)"

text \<open>
  The \<open>while (j < n)\<close> loop over the numbers of one face line: \<open>strstr(lineBufShifted, " ") + 1\<close>
  (undefined when there is no blank left), \<open>%d\<close> into the uninitialised \<open>val\<close>, and the
  store into slot \<open>indexOffset + j\<close>.
\<close>

function read_face_indices ::
  "int \<Rightarrow> nat \<Rightarrow> string \<Rightarrow> int \<Rightarrow> u32 option list \<Rightarrow> failure + u32 option list" where
  "read_face_indices n j lineBufShifted indexOffset idx =
     (if int j < n then
        (case strstr lineBufShifted '' '' of
           None \<Rightarrow> Inl Undefined
         | Some t \<Rightarrow>
             (case scan_int (tl t) of
                None \<Rightarrow> Inl Undefined
              | Some (v, r) \<Rightarrow>
                  (case c_int v of
                     Inl e \<Rightarrow> Inl e
                   | Inr val \<Rightarrow>
                       (case array_write idx (indexOffset + int j) (word_of_int val) of
                          Inl e \<Rightarrow> Inl e
                        | Inr idx' \<Rightarrow> read_face_indices n (j + 1) (tl t) indexOffset idx'))))
      else Inr idx)"
  by pat_completeness auto
termination
  by (relation "measure (\<lambda>(n, j, s, off, idx). nat (n - int j))") auto

declare read_face_indices.simps [simp del]

text \<open>The second loop over the faces, after the file position is set back.\<close>

function read_faces ::
  "nat \<Rightarrow> nat \<Rightarrow> string \<Rightarrow> string option \<Rightarrow> int \<Rightarrow> u32 option list
     \<Rightarrow> (failure + string \<times> string option \<times> u32 option list) option" where
  "read_faces nf i rest line indexOffset idx =
     (if i < nf then
        (case readLine rest line of
           None \<Rightarrow> None
         | Some (Inl e) \<Rightarrow> Some (Inl e)
         | Some (Inr (lineOk, rest', line')) \<Rightarrow>
             if \<not> lineOk then Some (Inl (Fatal ''error: .off file face not found''))
             else
               (case line' of
                  None \<Rightarrow> Some (Inl Undefined)
                | Some l \<Rightarrow>
                    (case scan_int l of
                       None \<Rightarrow> Some (Inl Undefined)
                     | Some (v, r) \<Rightarrow>
                         (case c_int v of
                            Inl e \<Rightarrow> Some (Inl e)
                          | Inr n \<Rightarrow>
                              (case read_face_indices n 0 l indexOffset idx of
                                 Inl e \<Rightarrow> Some (Inl e)
                               | Inr idx' \<Rightarrow>
                                   if 2 ^ 31 \<le> indexOffset + n \<or> indexOffset + n < - (2 ^ 31)
                                   then Some (Inl Undefined)
                                   else read_faces nf (i + 1) rest' line' (indexOffset + n) idx')))))
      else Some (Inr (rest, line, idx)))"
  by pat_completeness auto
termination
  by (relation "measure (\<lambda>(nf, i, rest, line, off, idx). nf - i)") auto

declare read_faces.simps [simp del]

text \<open>
  \<open>readOFF\<close>. \<open>file\<close> is the content of the file, \<open>None\<close> if it cannot be opened;
  \<open>nv0\<close> and \<open>nf0\<close> are the values the caller's \<open>numVertices\<close> and \<open>numFaces\<close> hold
  at the call. The function is given in three parts: the header line (\<open>readOFF\<close>), the
  element-count line (\<open>readOFF_counts\<close>) and the three loops (\<open>readOFF_arrays\<close>).
  \<open>malloc\<close>, \<open>ftell\<close> and \<open>fseek\<close> are taken to succeed. The vertex loop
  compares \<open>i\<close> with \<open>(double)(*numVertices)\<close>, the unsigned value; the face loops run
  up to \<open>(int)(*numFaces)\<close>.
\<close>

definition and_then ::
  "(failure + 'a) option \<Rightarrow> ('a \<Rightarrow> (failure + 'b) option) \<Rightarrow> (failure + 'b) option" where
  "and_then m f = (case m of None \<Rightarrow> None | Some (Inl e) \<Rightarrow> Some (Inl e) | Some (Inr x) \<Rightarrow> f x)"

definition readOFF_arrays ::
  "(string \<Rightarrow> ('d \<times> string) option) \<Rightarrow> string \<Rightarrow> string option \<Rightarrow> u32 \<Rightarrow> u32
     \<Rightarrow> (failure + 'd off_mesh) option" where
  "readOFF_arrays lf rest2 line2 nv nf =
     and_then (read_vertices lf (unat nv) 0 rest2 line2 [])
       (\<lambda>(facesStartOffset, line3, vs).
     and_then (read_face_sizes (nat (sint nf)) 0 facesStartOffset line3 [] 0)
       (\<lambda>(rest4, line4, sizes, numFaceIndices).
     and_then (read_faces (nat (sint nf)) 0 facesStartOffset line4 0
                 (replicate (nat numFaceIndices) None))
       (\<lambda>(rest5, line5, idx).
         Some (Inr \<lparr>pVertices = vs, pFaceVertexIndices = idx, pFaceSizes = sizes,
                    numVertices = nv, numFaces = nf\<rparr>))))"

definition readOFF_counts ::
  "(string \<Rightarrow> ('d \<times> string) option) \<Rightarrow> string \<Rightarrow> string option \<Rightarrow> u32 \<Rightarrow> u32
     \<Rightarrow> (failure + 'd off_mesh) option" where
  "readOFF_counts lf rest1 line1 nv0 nf0 =
     and_then (readLine rest1 line1) (\<lambda>(lineOk, rest2, line2).
       if \<not> lineOk then Some (Inl (Fatal ''error: .off element count not found''))
       else (case line2 of
               None \<Rightarrow> Some (Inl Undefined)
             | Some counts \<Rightarrow>
                 (case scan_counts counts nv0 nf0 of
                    Inl e \<Rightarrow> Some (Inl e)
                  | Inr (nv, nf) \<Rightarrow> readOFF_arrays lf rest2 line2 nv nf)))"

definition readOFF ::
  "(string \<Rightarrow> ('d \<times> string) option) \<Rightarrow> string option \<Rightarrow> u32 \<Rightarrow> u32
     \<Rightarrow> (failure + 'd off_mesh) option" where
  "readOFF lf file nv0 nf0 =
     (case file of
        None \<Rightarrow> Some (Inl (Fatal ''error: failed to open''))
      | Some content \<Rightarrow>
          and_then (readLine content None) (\<lambda>(lineOk, rest1, line1).
            if \<not> lineOk then Some (Inl (Fatal ''error: .off file header not found''))
            else (case line1 of
                    None \<Rightarrow> Some (Inl Undefined)
                  | Some header \<Rightarrow>
                      if strstr header ''OFF'' = None
                      then Some (Inl (Fatal ''error: unrecognised .off file header''))
                      else readOFF_counts lf rest1 line1 nv0 nf0)))"

text \<open>A file given by its lines, each ended by a newline.\<close>

definition text_of_lines :: "string list \<Rightarrow> string" where
  "text_of_lines ls = concat (map (\<lambda>l. l @ [NL]) ls)"

section \<open>\<open>strtok\<close>\<close>

text \<open>
  A \<open>char\<close> pointer into a buffer is modelled by the bytes from the pointer to the end of
  what is known of the buffer. \<open>strtok\<close> applied to a non-null pointer skips the
  separators, returns \<open>NULL\<close> at a NUL byte, and otherwise returns the token that ends
  before the next separator or NUL byte (a separator is overwritten with NUL).
  \<open>Token t after\<close> gives the token and the bytes from its terminator on, so
  \<open>token + strlen(token) + 1\<close> is \<open>tl after\<close>. \<open>Overrun\<close> means that the scan left the
  known bytes.
\<close>

datatype tok_result = NoToken | Overrun | Token string string

definition strtok_step :: "char \<Rightarrow> string \<Rightarrow> tok_result" where
  "strtok_step d cs =
     (case dropWhile (\<lambda>c. c = d) cs of
        [] \<Rightarrow> Overrun
      | c # r \<Rightarrow>
          if c = NUL then NoToken
          else (case dropWhile (\<lambda>x. x \<noteq> d \<and> x \<noteq> NUL) (c # r) of
                  [] \<Rightarrow> Overrun
                | a # as \<Rightarrow> Token (takeWhile (\<lambda>x. x \<noteq> d \<and> x \<noteq> NUL) (c # r)) (a # as)))"

lemma strtok_step_shorter:
  assumes "strtok_step d cs = Token t after"
  shows "length (tl after) < length cs \<and> length after < length cs"
proof (cases "dropWhile (\<lambda>c. c = d) cs")
  case Nil
  with assms show ?thesis by (simp add: strtok_step_def)
next
  case (Cons c r)
  have cd: "c \<noteq> d" using hd_dropWhile [of "\<lambda>c. c = d" cs] Cons by auto
  from assms Cons have cn: "c \<noteq> NUL"
    by (auto simp: strtok_step_def split: if_splits)
  from assms Cons cn have after: "after = dropWhile (\<lambda>x. x \<noteq> d \<and> x \<noteq> NUL) (c # r)"
    and ne: "after \<noteq> []"
    by (auto simp: strtok_step_def split: list.splits)
  from after cd cn have "after = dropWhile (\<lambda>x. x \<noteq> d \<and> x \<noteq> NUL) r" by simp
  then have "length after \<le> length r" by (simp add: length_dropWhile_le)
  moreover have "length (c # r) \<le> length cs"
    using length_dropWhile_le [of "\<lambda>c. c = d" cs] Cons by simp
  ultimately show ?thesis using ne by (cases after) auto
qed

text \<open>
  The number of tokens that \<open>strtok(p, " ")\<close> followed by \<open>strtok(NULL, " ")\<close> delivers.
  The continuation resumes behind an overwritten separator, or at the NUL byte that ended
  the last token.
\<close>

function count_tokens :: "string \<Rightarrow> nat \<Rightarrow> failure + nat" where
  "count_tokens cs faceVertexCount =
     (case strtok_step CHR '' '' cs of
        Overrun \<Rightarrow> Inl Undefined
      | NoToken \<Rightarrow> Inr faceVertexCount
      | Token t after \<Rightarrow>
          count_tokens (if hd after = NUL then after else tl after) (faceVertexCount + 1))"
  by pat_completeness auto
termination
  by (relation "measure (\<lambda>(cs, n). length cs)") (auto dest: strtok_step_shorter)

declare count_tokens.simps [simp del]

section \<open>\<open>readOBJ\<close>\<close>

datatype ObjFileCmdType = VERTEX | NORMAL | TEXCOORD | FACE | UNKNOWN

text \<open>
  The line buffer after \<open>getline\<close> and \<open>lineBuf[strcspn(lineBuf, "\r\n")] = '\0'\<close>: the
  bytes of the line with the first carriage return or newline overwritten, and the NUL byte
  that \<open>getline\<close> appends. What the buffer holds behind that byte is not known. The line
  as a C string is \<open>cstr\<close> of the buffer.
\<close>

definition strip_line :: "string \<Rightarrow> string" where
  "strip_line raw =
     (raw @ [NUL])[length (takeWhile (\<lambda>c. c \<noteq> CR \<and> c \<noteq> NL \<and> c \<noteq> NUL) raw) := NUL]"

definition line_cmd :: "string \<Rightarrow> ObjFileCmdType" where
  "line_cmd l =
     (if take 2 l = ''v '' then VERTEX
      else if take 3 l = ''vn '' then NORMAL
      else if take 3 l = ''vt '' then TEXCOORD
      else if take 2 l = ''f '' then FACE
      else UNKNOWN)"

text \<open>The lines of a file as \<open>getline\<close> delivers them, each with its newline if it has one.\<close>

fun raw_lines :: "string \<Rightarrow> string \<Rightarrow> string list" where
  "raw_lines cur [] = (if cur = [] then [] else [cur])"
| "raw_lines cur (c # cs) =
     (if c = NL then (cur @ [NL]) # raw_lines [] cs else raw_lines (cur @ [c]) cs)"

text \<open>
  The variables of \<open>readOBJ\<close>. A pointer is \<open>None\<close> as long as it does not point to an
  array allocated here (it holds what the caller left in it); the slots of an allocated array
  are \<open>None\<close> until they are written. The counters are C \<open>int\<close>s that count lines and fields
  of the file; they are naturals in the model, which a file of fewer than \<open>2^31\<close> lines and
  fields cannot tell apart.
\<close>

record 'd obj_state =
  nVertices :: nat
  nNormals :: nat
  nTexCoords :: nat
  nFaces :: nat
  faceIndicesCounter :: nat
  nFaceIndices :: nat
  obj_pVertices :: "'d option list option"
  pNormals :: "'d option list option"
  pTexCoords :: "'d option list option"
  obj_pFaceSizes :: "u32 option list option"
  obj_pFaceVertexIndices :: "u32 option list option"
  pFaceVertexTexCoordIndices :: "u32 option list option"
  pFaceVertexNormalIndices :: "u32 option list option"
  obj_numVertices :: u32
  numNormals :: u32
  numTexcoords :: u32
  obj_numFaces :: u32

definition slot_write :: "'a option list option \<Rightarrow> int \<Rightarrow> 'a \<Rightarrow> failure + 'a option list option" where
  "slot_write p k v =
     (case p of
        None \<Rightarrow> Inl Undefined
      | Some a \<Rightarrow> (case array_write a k v of Inl e \<Rightarrow> Inl e | Inr a' \<Rightarrow> Inr (Some a')))"

definition slot_read :: "'a option list option \<Rightarrow> int \<Rightarrow> failure + 'a" where
  "slot_read p k =
     (case p of
        None \<Rightarrow> Inl Undefined
      | Some a \<Rightarrow>
          (case array_read a k of
             Inl e \<Rightarrow> Inl e
           | Inr None \<Rightarrow> Inl Undefined
           | Inr (Some v) \<Rightarrow> Inr v))"

text \<open>Three (or two) consecutive slots, as the vertex, normal and texcoord cases store them.\<close>

fun slots_write :: "'a option list option \<Rightarrow> int \<Rightarrow> 'a list \<Rightarrow> failure + 'a option list option" where
  "slots_write p k [] = Inr p"
| "slots_write p k (v # vs) =
     (case slot_write p k v of Inl e \<Rightarrow> Inl e | Inr p' \<Rightarrow> slots_write p' (k + 1) vs)"

text \<open>
  The \<open>switch (faceVertexDataIt)\<close> of the third pass: the store of \<open>(uint32_t)(val - 1)\<close>
  into slot \<open>faceIndicesCounter\<close> of the array the case selects.
\<close>

definition store_index :: "nat \<Rightarrow> int \<Rightarrow> 'd obj_state \<Rightarrow> failure + 'd obj_state" where
  "store_index faceVertexDataIt val st =
     (if faceVertexDataIt = 0 then
        (case slot_write (obj_pFaceVertexIndices st) (int (faceIndicesCounter st))
                (word_of_int (val - 1)) of
           Inl e \<Rightarrow> Inl e
         | Inr p \<Rightarrow> Inr (st\<lparr>obj_pFaceVertexIndices := p\<rparr>))
      else if faceVertexDataIt = 1 then
        (case slot_write (pFaceVertexTexCoordIndices st) (int (faceIndicesCounter st))
                (word_of_int (val - 1)) of
           Inl e \<Rightarrow> Inl e
         | Inr p \<Rightarrow> Inr (st\<lparr>pFaceVertexTexCoordIndices := p\<rparr>))
      else if faceVertexDataIt = 2 then
        (case slot_write (pFaceVertexNormalIndices st) (int (faceIndicesCounter st))
                (word_of_int (val - 1)) of
           Inl e \<Rightarrow> Inl e
         | Inr p \<Rightarrow> Inr (st\<lparr>pFaceVertexNormalIndices := p\<rparr>))
      else Inr st)"

text \<open>
  The inner loop of the third pass, over the \<open>/\<close>-separated elements of the copy \<open>buf\<close> of
  one token. \<open>tok\<close> is the C string at \<open>token\<close>: the \<open>sscanf\<close> in the body reads
  \<open>token\<close>, not \<open>tokenElem\<close>. \<open>val\<close> is not initialised; it is read in the three cases
  that store, and \<open>val - 1\<close> is an \<open>int\<close> subtraction.
\<close>

function corner_elems :: "string \<Rightarrow> string \<Rightarrow> nat \<Rightarrow> 'd obj_state \<Rightarrow> failure + 'd obj_state" where
  "corner_elems tok cs faceVertexDataIt st =
     (case strtok_step CHR ''/'' cs of
        Overrun \<Rightarrow> Inl Undefined
      | NoToken \<Rightarrow> Inr st
      | Token tokenElem after \<Rightarrow>
          (let haveTexCoords = (0 < nTexCoords st);
               it = (if faceVertexDataIt = 1 \<and> \<not> haveTexCoords then 2 else faceVertexDataIt)
           in case scan_int tok of
                None \<Rightarrow>
                  if it \<le> 2 then Inl Undefined
                  else corner_elems tok (tl after) (it + 1) st
              | Some (v, r) \<Rightarrow>
                  (case c_int v of
                     Inl e \<Rightarrow> Inl e
                   | Inr val \<Rightarrow>
                       if it \<le> 2 \<and> val - 1 < - (2 ^ 31) then Inl Undefined
                       else (case store_index it val st of
                               Inl e \<Rightarrow> Inl e
                             | Inr st' \<Rightarrow> corner_elems tok (tl after) (it + 1) st'))))"
  by pat_completeness auto
termination
  by (relation "measure (\<lambda>(tok, cs, it, st). length cs)") (auto dest: strtok_step_shorter)

declare corner_elems.simps [simp del]

text \<open>\<open>strncpy(buf, token, sizeof(buf))\<close> with \<open>char buf[512]\<close>: the bytes of \<open>buf\<close>.\<close>

definition strncpy_buf :: "string \<Rightarrow> string" where
  "strncpy_buf tok =
     (if length tok < 512 then tok @ replicate (512 - length tok) NUL else take 512 tok)"

text \<open>
  The outer loop of the third pass, over the blank-separated tokens of the line buffer.
  A token whose first byte is \<open>f\<close> is skipped. The result is \<open>iter\<close> and the state.
\<close>

function face_tokens :: "string \<Rightarrow> nat \<Rightarrow> 'd obj_state \<Rightarrow> failure + nat \<times> 'd obj_state" where
  "face_tokens cs iter st =
     (case strtok_step CHR '' '' cs of
        Overrun \<Rightarrow> Inl Undefined
      | NoToken \<Rightarrow> Inr (iter, st)
      | Token tok after \<Rightarrow>
          if hd (strncpy_buf tok) = CHR ''f'' then face_tokens (tl after) iter st
          else (case corner_elems tok (strncpy_buf tok) 0 st of
                  Inl e \<Rightarrow> Inl e
                | Inr st' \<Rightarrow>
                    face_tokens (tl after) (iter + 1)
                      (st'\<lparr>faceIndicesCounter := faceIndicesCounter st' + 1\<rparr>)))"
  by pat_completeness auto
termination
  by (relation "measure (\<lambda>(cs, iter, st). length cs)") (auto dest: strtok_step_shorter)

declare face_tokens.simps [simp del]

text \<open>
  The body of the \<open>getline\<close> loop for one line, in pass \<open>passIterator\<close>. In the vertex,
  normal and texcoord cases of the second pass the values are stored before the number of
  converted fields is checked; the slots are those of an array allocated after the first
  pass, and a wrong number of fields ends the process either way.
\<close>

definition obj_line ::
  "(string \<Rightarrow> ('d \<times> string) option) \<Rightarrow> nat \<Rightarrow> string \<Rightarrow> 'd obj_state \<Rightarrow> failure + 'd obj_state" where
  "obj_line lf passIterator raw st =
     (let lineBuf = strip_line raw; l = cstr lineBuf
      in if l = [] then Inr st
         else if hd l = CHR ''#'' then Inr st
         else
           (case line_cmd l of
              UNKNOWN \<Rightarrow> Inr st
            | VERTEX \<Rightarrow>
                (let vertexId = nVertices st; st1 = st\<lparr>nVertices := nVertices st + 1\<rparr>
                 in if passIterator = 1 then
                      (case scan_seq lf 3 (drop 2 l) of
                         [x, y, z] \<Rightarrow>
                           (case slots_write (obj_pVertices st1) (int vertexId * 3) [x, y, z] of
                              Inl e \<Rightarrow> Inl e
                            | Inr p \<Rightarrow> Inr (st1\<lparr>obj_pVertices := p\<rparr>))
                       | _ \<Rightarrow> Inl (Fatal ''error: have %zu components for v%d''))
                    else Inr st1)
            | NORMAL \<Rightarrow>
                (let normalId = nNormals st; st1 = st\<lparr>nNormals := nNormals st + 1\<rparr>
                 in if passIterator = 1 then
                      (case scan_seq lf 3 (drop 2 l) of
                         [x, y, z] \<Rightarrow>
                           (case slots_write (pNormals st1) (int normalId * 3) [x, y, z] of
                              Inl e \<Rightarrow> Inl e
                            | Inr p \<Rightarrow> Inr (st1\<lparr>pNormals := p\<rparr>))
                       | _ \<Rightarrow> Inl (Fatal ''error: have %zu components for vn%d''))
                    else Inr st1)
            | TEXCOORD \<Rightarrow>
                (let texCoordId = nTexCoords st; st1 = st\<lparr>nTexCoords := nTexCoords st + 1\<rparr>
                 in if passIterator = 1 then
                      (case scan_seq lf 2 (drop 2 l) of
                         [x, y] \<Rightarrow>
                           (case slots_write (pTexCoords st1) (int texCoordId * 2) [x, y] of
                              Inl e \<Rightarrow> Inl e
                            | Inr p \<Rightarrow> Inr (st1\<lparr>pTexCoords := p\<rparr>))
                       | _ \<Rightarrow> Inl (Fatal ''error: have %zu components for vt%d''))
                    else Inr st1)
            | FACE \<Rightarrow>
                (let faceId = nFaces st; st1 = st\<lparr>nFaces := nFaces st + 1\<rparr>
                 in if passIterator = 1 then
                      (case count_tokens (drop 2 lineBuf) 0 of
                         Inl e \<Rightarrow> Inl e
                       | Inr faceVertexCount \<Rightarrow>
                           (case slot_write (obj_pFaceSizes st1) (int faceId)
                                   (of_nat faceVertexCount) of
                              Inl e \<Rightarrow> Inl e
                            | Inr p \<Rightarrow>
                                Inr (st1\<lparr>obj_pFaceSizes := p,
                                          nFaceIndices := nFaceIndices st1 + faceVertexCount\<rparr>)))
                    else if passIterator = 2 then
                      (case slot_read (obj_pFaceSizes st1) (int faceId) of
                         Inl e \<Rightarrow> Inl e
                       | Inr faceVertexCount \<Rightarrow>
                           (case face_tokens lineBuf 0 st1 of
                              Inl e \<Rightarrow> Inl e
                            | Inr (iter, st2) \<Rightarrow>
                                if int iter \<noteq> sint faceVertexCount
                                then Inl (Fatal ''error: have %d vertices when there should be =%d'')
                                else Inr st2))
                    else Inr st1)))"

fun obj_lines ::
  "(string \<Rightarrow> ('d \<times> string) option) \<Rightarrow> nat \<Rightarrow> string list \<Rightarrow> 'd obj_state \<Rightarrow> failure + 'd obj_state" where
  "obj_lines lf passIterator [] st = Inr st"
| "obj_lines lf passIterator (raw # ls) st =
     (case obj_line lf passIterator raw st of
        Inl e \<Rightarrow> Inl e
      | Inr st' \<Rightarrow> obj_lines lf passIterator ls st')"

text \<open>What follows the \<open>getline\<close> loop in the first and in the second pass.\<close>

definition after_first_pass :: "'d obj_state \<Rightarrow> 'd obj_state" where
  "after_first_pass st =
     st\<lparr>obj_pVertices :=
          (if 0 < nVertices st then Some (replicate (nVertices st * 3) None) else obj_pVertices st),
        pNormals :=
          (if 0 < nNormals st then Some (replicate (nNormals st * 3) None) else pNormals st),
        pTexCoords :=
          (if 0 < nTexCoords st then Some (replicate (nTexCoords st * 2) None) else pTexCoords st),
        obj_pFaceSizes :=
          (if 0 < nFaces st then Some (replicate (nFaces st) None) else obj_pFaceSizes st),
        obj_numVertices := of_nat (nVertices st),
        numNormals := of_nat (nNormals st),
        numTexcoords := of_nat (nTexCoords st),
        obj_numFaces := of_nat (nFaces st)\<rparr>"

definition after_second_pass :: "'d obj_state \<Rightarrow> failure + 'd obj_state" where
  "after_second_pass st =
     (if nFaceIndices st = 0 then Inl (Fatal ''error: invalid face index count %d'')
      else Inr (st\<lparr>obj_pFaceVertexIndices := Some (replicate (nFaceIndices st) None),
                   pFaceVertexTexCoordIndices :=
                     (if 0 < nTexCoords st then Some (replicate (nFaceIndices st) None)
                      else pFaceVertexTexCoordIndices st),
                   pFaceVertexNormalIndices :=
                     (if 0 < nNormals st then Some (replicate (nFaceIndices st) None)
                      else pFaceVertexNormalIndices st)\<rparr>))"

text \<open>
  One iteration of the \<open>do ... while (++passIterator < 3)\<close> loop: the counters declared in
  its body start at 0, the file is read to its end, and the pass is closed.
\<close>

definition obj_pass ::
  "(string \<Rightarrow> ('d \<times> string) option) \<Rightarrow> nat \<Rightarrow> string list \<Rightarrow> 'd obj_state \<Rightarrow> failure + 'd obj_state" where
  "obj_pass lf passIterator ls st =
     (case obj_lines lf passIterator ls
             (st\<lparr>nVertices := 0, nNormals := 0, nTexCoords := 0, nFaces := 0,
                 faceIndicesCounter := 0\<rparr>) of
        Inl e \<Rightarrow> Inl e
      | Inr st' \<Rightarrow>
          if passIterator = 0 then Inr (after_first_pass st')
          else if passIterator = 1 then after_second_pass st'
          else Inr st')"

definition obj_init :: "'d obj_state" where
  "obj_init =
     \<lparr>nVertices = 0, nNormals = 0, nTexCoords = 0, nFaces = 0, faceIndicesCounter = 0,
      nFaceIndices = 0, obj_pVertices = None, pNormals = None, pTexCoords = None,
      obj_pFaceSizes = None, obj_pFaceVertexIndices = None, pFaceVertexTexCoordIndices = None,
      pFaceVertexNormalIndices = None, obj_numVertices = 0, numNormals = 0, numTexcoords = 0,
      obj_numFaces = 0\<rparr>"

text \<open>
  \<open>readOBJ\<close>. \<open>file\<close> is the content of the file, \<open>None\<close> if it cannot be opened;
  \<open>malloc\<close>, \<open>fgetpos\<close> and \<open>fsetpos\<close> are taken to succeed. The result is the state
  after the third pass: the arrays, the counts given back to the caller, and the counters of
  the third pass.
\<close>

definition readOBJ ::
  "(string \<Rightarrow> ('d \<times> string) option) \<Rightarrow> string option \<Rightarrow> failure + 'd obj_state" where
  "readOBJ lf file =
     (case file of
        None \<Rightarrow> Inl (Fatal ''error: failed to open file'')
      | Some content \<Rightarrow>
          (case obj_pass lf 0 (raw_lines [] content) obj_init of
             Inl e \<Rightarrow> Inl e
           | Inr s0 \<Rightarrow>
               (case obj_pass lf 1 (raw_lines [] content) s0 of
                  Inl e \<Rightarrow> Inl e
                | Inr s1 \<Rightarrow> obj_pass lf 2 (raw_lines [] content) s1)))"

text \<open>
  The face lines of a file and the number of tokens \<open>count_tokens\<close> finds behind the
  command of each; they relate what the second and the third pass do with the same line.
\<close>

definition is_face_line :: "string \<Rightarrow> bool" where
  "is_face_line raw = (line_cmd (cstr (strip_line raw)) = FACE)"

definition face_count :: "string \<Rightarrow> nat" where
  "face_count raw = (case count_tokens (drop 2 (strip_line raw)) 0 of Inl e \<Rightarrow> 0 | Inr c \<Rightarrow> c)"

definition face_counts :: "string list \<Rightarrow> nat list" where
  "face_counts ls = map face_count (filter is_face_line ls)"

text \<open>A state of the third pass in which face 0 was recorded with four corners.\<close>

definition four_corners :: "rat obj_state" where
  "four_corners = obj_init\<lparr>obj_pFaceSizes := Some [Some 4],
                            obj_pFaceVertexIndices := Some [None, None, None, None]\<rparr>"

section \<open>Writing a mesh and reading it back\<close>

text \<open>
  The value a coordinate has after \<open>%f\<close> has printed it with six decimals.
\<close>

definition round6 :: "rat \<Rightarrow> rat" where
  "round6 x =
     (let q = of_nat (nat (round_half_even (\<bar>x\<bar> * 1000000))) / 1000000
      in if x < 0 then - q else q)"

text \<open>
  The coordinate \<open>%lf\<close> stores when it reads that text: the \<open>double\<close> nearest to the
  six-decimal number.
\<close>

definition reread :: "rat \<Rightarrow> rat" where
  "reread x = to_double (round6 x)"

text \<open>\<open>writeOFF\<close> followed by \<open>readOFF\<close> of the file written, for a mesh with face sizes and
  without edges; the caller's counts are 0 before the read.\<close>

definition write_then_read ::
  "rat list \<Rightarrow> u32 list \<Rightarrow> u32 list \<Rightarrow> u32 \<Rightarrow> u32 \<Rightarrow> (failure + rat off_mesh) option" where
  "write_then_read vs idx fs nv nf =
     (case writeOFF True (Some vs) idx (Some fs) None nv nf 0 of
        Inl e \<Rightarrow> Some (Inl e)
      | Inr out \<Rightarrow> readOFF scan_lf (Some out) 0 0)"

text \<open>
  Notions for the proof: the bytes that may occur inside a line, the line \<open>writeOFF\<close>
  prints for vertex \<open>i\<close>, and the corner-index array of \<open>readOFF\<close> when its first
  \<open>p\<close> slots are filled.
\<close>

definition plain :: "char \<Rightarrow> bool" where
  "plain c = (c \<noteq> NL \<and> c \<noteq> NUL)"

definition vertex_line :: "rat list \<Rightarrow> nat \<Rightarrow> string" where
  "vertex_line vs i =
     fmt_f (vs ! (3 * i)) @ '' '' @ fmt_f (vs ! (3 * i + 1)) @ '' '' @ fmt_f (vs ! (3 * i + 2)) @ [NL]"

definition partial :: "u32 list \<Rightarrow> nat \<Rightarrow> u32 option list" where
  "partial idx p = map Some (take p idx) @ replicate (length idx - p) None"

section \<open>Properties of the seam-sequence decoder\<close>

lemma array_read_past:
  assumes "length a \<le> unat w"
  shows "array_read a (uint w) = Inl Undefined"
proof -
  have "uint w = int (unat w)" by simp
  with assms have "\<not> uint w < int (length a)" by linarith
  then show ?thesis by (simp add: array_read_def)
qed

lemma array_read_in:
  assumes "unat w < length a"
  shows "array_read a (uint w) = Inr (a ! unat w)"
proof -
  have "uint w = int (unat w)" by simp
  with assms have "uint w < int (length a)" by linarith
  then show ?thesis by (simp add: array_read_def)
qed

lemma seam_loop_no_report: "seam_loop A v k it off \<noteq> Inl (Fatal msg)"
  by (induction k arbitrary: it off) (auto simp: array_read_def split: sum.splits if_splits)

lemma seam_decode_no_report: "seam_decode A v \<noteq> Inl (Fatal msg)"
  by (auto simp: seam_decode_def array_read_def seam_loop_no_report split: sum.splits if_splits)

lemma seam_loop_ample: "seam_loop ample v k it off \<noteq> Inl Uncaught"
  by (induction k arbitrary: it off) (auto simp: array_read_def ample_def split: sum.splits if_splits)

lemma seam_decode_ample: "seam_decode ample v \<noteq> Inl Uncaught"
  by (auto simp: seam_decode_def array_read_def seam_loop_ample split: sum.splits if_splits)

lemma unat_add32: "unat a + unat b < 2 ^ 32 \<Longrightarrow> unat (a + b :: u32) = unat a + unat b"
  using unat_add_lem [of a b] by simp

lemma unat_succ32: "unat (off :: u32) < n \<Longrightarrow> n < 2 ^ 32 \<Longrightarrow> unat (off + 1) = unat off + 1"
  using unat_add32 [of off 1] by simp

lemma seam_loop_incomplete:
  assumes "length v < 2 ^ 32"
  shows "\<not> groups_fit k (drop (unat off) v) \<Longrightarrow> \<exists>e. seam_loop A v k it off = Inl e"
proof (induction k arbitrary: it off)
  case 0
  then show ?case by simp
next
  case (Suc k)
  show ?case
  proof (cases "drop (unat off) v")
    case Nil
    then have "length v \<le> unat off" by simp
    then show ?thesis by (simp add: array_read_past)
  next
    case (Cons n xs)
    then have lt: "unat off < length v" by (cases "unat off < length v") simp_all
    have n: "v ! unat off = n" and xs: "xs = drop (unat off + 1) v"
      using Cons Cons_nth_drop_Suc [OF lt] by simp_all
    have u1: "unat (off + 1) = unat off + 1" using lt assms by (rule unat_succ32)
    have r0: "array_read v (uint off) = Inr n" using lt n by (simp add: array_read_in)
    show ?thesis
    proof (cases xs)
      case Nil
      then have "length v \<le> unat (off + 1)" using xs u1 by simp
      then show ?thesis using r0 by (simp add: array_read_past)
    next
      case (Cons lp ys)
      then have lt1: "unat off + 1 < length v" using xs by (cases "unat off + 1 < length v") simp_all
      have lp: "v ! (unat off + 1) = lp" and ys: "ys = drop (unat off + 2) v"
        using Cons xs Cons_nth_drop_Suc [OF lt1] by simp_all
      have u2: "unat (off + 1 + 1) = unat off + 2"
        using unat_succ32 [of "off + 1" "length v"] lt1 assms u1 by simp
      have r1: "array_read v (uint (off + 1)) = Inr lp"
        using lt1 lp u1 array_read_in [of "off + 1" v] by simp
      have ly: "length ys = length v - (unat off + 2)" using ys by simp
      from Suc.prems \<open>drop (unat off) v = n # xs\<close> Cons
      have nf: "\<not> (unat n \<le> length ys \<and> groups_fit k (drop (unat n) ys))" by simp
      show ?thesis
      proof (cases "length v < unat (off + 1 + 1) + unat n")
        case True
        then show ?thesis using r0 r1 by simp
      next
        case False
        then have fit: "unat off + 2 + unat n \<le> length v" using u2 by simp
        then have "unat n \<le> length ys" using ly lt1 by simp
        with nf have nk: "\<not> groups_fit k (drop (unat n) ys)" by simp
        have "unat (off + 1 + 1) + unat n < 2 ^ 32" using fit assms u2 by linarith
        then have u3: "unat (off + 1 + 1 + n) = unat off + 2 + unat n"
          using unat_add32 [of "off + 1 + 1" n] u2 by linarith
        have dd: "drop (unat n) (drop (unat off + 2) v) = drop (unat off + 2 + unat n) v"
          by (simp only: drop_drop add.commute)
        have "drop (unat (off + 1 + 1 + n)) v = drop (unat n) ys"
          unfolding u3 ys dd ..
        with nk Suc.IH [of "off + 1 + 1 + n" "Suc it"]
        obtain e where "seam_loop A v k (Suc it) (off + 1 + 1 + n) = Inl e"
          by auto
        then show ?thesis using r0 r1 False by simp
      qed
    qed
  qed
qed

lemma seam_decode_incomplete:
  assumes "length b < 2 ^ 32" and "\<not> seam_complete b"
  shows "\<exists>e. seam_decode A b = Inl e"
proof (cases b)
  case Nil
  then show ?thesis by (simp add: seam_decode_def array_read_def)
next
  case (Cons n xs)
  with assms(2) have "\<not> groups_fit (unat n) (drop (unat (0 + 1 :: u32)) b)"
    by (simp add: seam_complete_def)
  from seam_loop_incomplete [OF assms(1) this] Cons show ?thesis
    by (simp add: seam_decode_def array_read_def)
qed

lemma failure_cases: "e = Undefined \<or> e = Uncaught \<or> (\<exists>msg. e = Fatal msg)"
  by (cases e) simp_all

lemma unat_of_nat32: "n < 2 ^ 32 \<Longrightarrow> unat (of_nat n :: u32) = n"
  by (simp add: unat_of_nat)

lemma length_seam_group: "length (seam_group r) = length (fst r) + 2"
  by (simp add: seam_group_def)

lemma seam_loop_step:
  assumes "push_back_ok A it" and "array_read v (uint off) = Inr n"
    and "resize_ok A (unat n)" and "array_read v (uint (off + 1)) = Inr lp"
    and "unat (off + 1 + 1) + unat n \<le> length v"
    and "take (unat n) (drop (unat (off + 1 + 1)) v) = idx"
    and "seam_loop A v k (Suc it) (off + 1 + 1 + n) = Inr rest"
  shows "seam_loop A v (Suc k) it off = Inr ((idx, lp) # rest)"
  using assms by simp

lemma seam_loop_layout:
  "length pre + length (concat (map seam_group rs)) < 2 ^ 32 \<Longrightarrow>
   list_all (push_back_ok A) [it..<it + length rs] \<Longrightarrow>
   list_all (\<lambda>r. resize_ok A (length (fst r))) rs \<Longrightarrow>
   seam_loop A (pre @ concat (map seam_group rs) @ extra) (length rs) it (of_nat (length pre)) = Inr rs"
proof (induction rs arbitrary: pre it)
  case Nil
  then show ?case by simp
next
  case (Cons r rs)
  obtain idx lp where r: "r = (idx, lp)" by (cases r)
  define n :: u32 where "n = of_nat (length idx)"
  define off :: u32 where "off = of_nat (length pre)"
  define rest where "rest = concat (map seam_group rs) @ extra"
  define v where "v = pre @ concat (map seam_group (r # rs)) @ extra"
  have sg: "seam_group r = n # lp # idx"
    by (simp add: r seam_group_def n_def)
  have v: "v = pre @ n # lp # idx @ rest"
    by (simp add: v_def sg rest_def)
  have bound: "length pre + (length idx + 2) + length (concat (map seam_group rs)) < 2 ^ 32"
    using Cons.prems(1) by (simp add: sg)
  have u0: "unat off = length pre"
    unfolding off_def using bound by (intro unat_of_nat32) simp
  have "unat off + unat (1 :: u32) < 2 ^ 32" using bound u0 by simp
  then have u1: "unat (off + 1) = length pre + 1"
    using unat_add32 [of off 1] u0 by simp
  have "unat (off + 1) + unat (1 :: u32) < 2 ^ 32" using bound u1 by simp
  then have u2: "unat (off + 1 + 1) = length pre + 2"
    using unat_add32 [of "off + 1" 1] u1 by simp
  have un: "unat n = length idx"
    unfolding n_def using bound by (intro unat_of_nat32) simp
  from Cons.prems(2) have pb: "push_back_ok A it"
    and pbs: "list_all (push_back_ok A) [Suc it..<Suc it + length rs]"
    by (auto simp: list_all_iff)
  from Cons.prems(3) have rz: "resize_ok A (unat n)"
    and rzs: "list_all (\<lambda>r. resize_ok A (length (fst r))) rs" by (simp_all add: r un)
  have "unat off < length v" unfolding u0 v by simp
  then have "array_read v (uint off) = Inr (v ! unat off)" by (rule array_read_in)
  then have r0: "array_read v (uint off) = Inr n"
    unfolding u0 v by (simp add: nth_append)
  have "unat (off + 1) < length v" unfolding u1 v by simp
  then have "array_read v (uint (off + 1)) = Inr (v ! unat (off + 1))" by (rule array_read_in)
  then have r1: "array_read v (uint (off + 1)) = Inr lp"
    unfolding u1 v by (simp add: nth_append)
  have fit: "unat (off + 1 + 1) + unat n \<le> length v"
    unfolding u2 un v by simp
  have "drop (length pre + 2) v = idx @ rest"
    unfolding v by simp
  then have r2: "take (unat n) (drop (unat (off + 1 + 1)) v) = idx"
    unfolding u2 un by simp
  have off': "off + 1 + 1 + n = of_nat (length (pre @ seam_group r))"
    by (simp add: sg off_def n_def)
  have same: "(pre @ seam_group r) @ concat (map seam_group rs) @ extra = v"
    by (simp add: v_def)
  have "length (pre @ seam_group r) + length (concat (map seam_group rs)) < 2 ^ 32"
    using bound by (simp add: sg)
  then have "seam_loop A ((pre @ seam_group r) @ concat (map seam_group rs) @ extra)
              (length rs) (Suc it) (of_nat (length (pre @ seam_group r))) = Inr rs"
    using pbs rzs by (rule Cons.IH)
  then have ih: "seam_loop A v (length rs) (Suc it) (off + 1 + 1 + n) = Inr rs"
    unfolding same off' .
  have "seam_loop A v (Suc (length rs)) it off = Inr ((idx, lp) # rs)"
    using pb r0 rz r1 fit r2 ih by (rule seam_loop_step)
  then show ?case
    unfolding v_def off_def r by simp
qed

lemma seam_decode_layout:
  assumes "length (seam_layout rs) < 2 ^ 32" and "grants A rs"
  shows "seam_decode A (seam_layout rs @ extra) = Inr rs"
proof -
  have len: "length [of_nat (length rs) :: u32] + length (concat (map seam_group rs)) < 2 ^ 32"
    using assms(1) by (simp add: seam_layout_def)
  have n: "unat (of_nat (length rs) :: u32) = length rs"
  proof -
    have "length rs \<le> length (concat (map seam_group rs))"
      by (induction rs) (simp_all add: length_seam_group)
    then show ?thesis using len by (intro unat_of_nat32) simp
  qed
  have pb: "list_all (push_back_ok A) [0..<0 + length rs]"
    and rz: "list_all (\<lambda>r. resize_ok A (length (fst r))) rs"
    using assms(2) by (simp_all add: grants_def)
  have a: "seam_loop A ([of_nat (length rs)] @ concat (map seam_group rs) @ extra)
     (length rs) 0 (of_nat (length [of_nat (length rs) :: u32])) = Inr rs"
    using len pb rz by (rule seam_loop_layout)
  have h: "array_read (seam_layout rs @ extra) (uint (0 :: u32)) = Inr (of_nat (length rs))"
    by (simp add: array_read_def seam_layout_def)
  show ?thesis
    using a unfolding seam_decode_def h by (simp add: n seam_layout_def)
qed

lemma grants_ample: "grants ample rs"
  by (simp add: grants_def ample_def list_all_iff)

lemma length_seam_layout: "length (seam_layout rs) = 1 + (\<Sum>r\<leftarrow>rs. 2 + length (fst r))"
  by (induction rs) (simp_all add: seam_layout_def length_seam_group)

text \<open>
  Claim C2 (as stated): a buffer whose declared sequence lengths reach past its end makes the
  decode fail with a malformed-stream error instead of producing a collection.
  The buffer \<open>[1, 5, 0, 7]\<close> declares one sequence of five indices and holds one. With all
  the memory it asks for, the decode reads the length and the flag and then copies five
  words from a place where the vector has one: the outcome is \<open>Undefined\<close>, not a
  report.
\<close>

theorem seam_decode_past_end_counterexample:
  "seam_decode ample [1, 5, 0, 7] = Inl Undefined"
  by (simp add: seam_decode_def array_read_def ample_def)

text \<open>
  Claim C2 (amended): the decode checks no bound and reports no error. On no buffer does it
  end with a report. On a buffer whose declared lengths reach past its end (shorter than
  \<open>2^32\<close> elements, as any buffer that fits the 32-bit offset is) it returns no collection
  either: it ends in an undefined read or copy past the end of the buffer, or before that in
  an uncaught allocation failure; with all the memory it asks for, in the undefined read or
  copy.
\<close>

theorem seam_decode_past_end_undefined:
  "seam_decode A b \<noteq> Inl (Fatal msg)
   \<and> (length b < 2 ^ 32 \<and> \<not> seam_complete b \<longrightarrow>
        (seam_decode A b = Inl Undefined \<or> seam_decode A b = Inl Uncaught)
        \<and> seam_decode ample b = Inl Undefined)"
proof -
  have "seam_decode A' b = Inl Undefined \<or> seam_decode A' b = Inl Uncaught"
    if len: "length b < 2 ^ 32" and inc: "\<not> seam_complete b" for A'
  proof -
    obtain e where e: "seam_decode A' b = Inl e"
      using seam_decode_incomplete [OF len inc] by blast
    then show ?thesis
      using failure_cases [of e] seam_decode_no_report [of A' b] by auto
  qed
  then show ?thesis
    using seam_decode_no_report [of A b msg] seam_decode_ample [of b] by blast
qed

theorem seam_decode_past_end_undefined_witness:
  "length [2 :: u32, 1, 0, 9, 3] < 2 ^ 32 \<and> \<not> seam_complete [2, 1, 0, 9, 3]
   \<and> seam_decode ample [2, 1, 0, 9, 3] = Inl Undefined"
proof -
  have "\<not> seam_complete [2, 1, 0, 9, 3]" by code_simp
  then show ?thesis
    using seam_decode_past_end_undefined [of ample "[2, 1, 0, 9, 3]"] by simp
qed

text \<open>
  Claim C10: for a well-formed seam buffer (the layout of \<open>N\<close> complete groups, within the
  range of the 32-bit running offset), the decode reads exactly
  \<open>1 + (\<Sum>k. 2 + len k)\<close> elements: every read is inside the buffer, and the result
  is the laid-out records, with or without surplus elements after the last group. This holds
  with all the memory the decode asks for, and with any allocator that grants what the
  laid-out records need.
\<close>

theorem seam_decode_ignores_surplus:
  assumes "length (seam_layout rs) < 2 ^ 32"
  shows "seam_decode ample (seam_layout rs @ extra) = seam_decode ample (seam_layout rs)
       \<and> seam_decode ample (seam_layout rs) = Inr rs
       \<and> length (seam_layout rs) = 1 + (\<Sum>r\<leftarrow>rs. 2 + length (fst r))
       \<and> (grants A rs \<longrightarrow> seam_decode A (seam_layout rs @ extra) = Inr rs)"
  using seam_decode_layout [OF assms grants_ample, of extra]
    seam_decode_layout [OF assms grants_ample, of "[]"]
    seam_decode_layout [OF assms, of A extra] length_seam_layout [of rs]
  by simp

theorem seam_decode_ignores_surplus_witness:
  "length (seam_layout [([4, 5, 6], 1), ([], 0)]) < 2 ^ 32
   \<and> grants ample [([4, 5, 6], 1), ([], 0)]
   \<and> seam_decode ample (seam_layout [([4, 5, 6], 1), ([], 0)] @ [3, 3])
       = Inr [([4, 5, 6], 1), ([], 0)]"
  using seam_decode_ignores_surplus [of "[([4, 5, 6], 1), ([], 0)]" "[3, 3]" ample]
  by (simp add: seam_layout_def seam_group_def grants_def ample_def)

section \<open>Properties of \<open>writeOFF\<close>\<close>

lemma sint_of_nat32: "n < 2 ^ 31 \<Longrightarrow> sint (of_nat n :: u32) = int n"
proof -
  assume "n < 2 ^ 31"
  then have "int n < 2 ^ 31" by (metis of_nat_less_iff of_nat_numeral of_nat_power)
  then have "signed_take_bit 31 (int n) = int n"
    by (intro signed_take_bit_int_eq_self) simp_all
  moreover have "sint (of_nat n :: u32) = signed_take_bit 31 (int n)"
    using sint_sbintrunc' [where 'a = 32, of "int n"] by simp
  ultimately show ?thesis by simp
qed

lemma sint_unat32: "unat (w :: u32) < 2 ^ 31 \<Longrightarrow> sint w = int (unat w)"
  using sint_of_nat32 [of "unat w"] by simp

lemma write_corners_from:
  "start + k \<le> length idx \<Longrightarrow> j \<le> k \<Longrightarrow>
   write_corners idx (int start) k j
     = Inr (concat (map (\<lambda>j. '' '' @ fmt_d (sint (idx ! (start + j)))) [j..<k]))"
proof (induction "k - j" arbitrary: j)
  case 0
  then show ?case by (simp add: write_corners.simps)
next
  case (Suc d)
  then have lt: "j < k" and d: "d = k - (j + 1)" and le: "j + 1 \<le> k" by simp_all
  have rd: "array_read idx (int start + int j) = Inr (idx ! (start + j))"
    using Suc.prems lt by (simp add: array_read_def nat_add_distrib)
  have ih: "write_corners idx (int start) k (j + 1)
     = Inr (concat (map (\<lambda>j. '' '' @ fmt_d (sint (idx ! (start + j)))) [j + 1..<k]))"
    using Suc.hyps(1) [OF d Suc.prems(1) le] .
  have upt: "[j..<k] = j # [j + 1..<k]" using lt by (simp add: upt_rec)
  show ?case
    using ih by (subst write_corners.simps) (simp add: lt rd upt)
qed

lemma write_corners_fields:
  "start + k \<le> length idx \<Longrightarrow> write_corners idx (int start) k 0 = Inr (corner_fields idx start k)"
  using write_corners_from [of start k idx 0] by (simp add: corner_fields_def)


lemma face_start_Suc: "i < length fs \<Longrightarrow> face_start fs (Suc i) = face_start fs i + unat (fs ! i)"
  by (simp add: face_start_def take_Suc_conv_app_nth)

lemma face_start_mono: "i \<le> n \<Longrightarrow> face_start fs i \<le> face_start fs n"
proof (induction n)
  case 0
  then show ?case by simp
next
  case (Suc n)
  show ?case
  proof (cases "i = Suc n")
    case True
    then show ?thesis by simp
  next
    case False
    with Suc have le: "face_start fs i \<le> face_start fs n" by simp
    show ?thesis
    proof (cases "n < length fs")
      case True
      then show ?thesis using le by (simp add: face_start_Suc)
    next
      case False
      then show ?thesis using le by (simp add: face_start_def)
    qed
  qed
qed

lemma write_faces_sized_from:
  assumes "n \<le> length fs" "face_start fs n \<le> length idx" "length idx < 2 ^ 31" "i \<le> n"
  shows "write_faces idx (Some fs) n i (of_nat (face_start fs i))
           = Inr (concat (map (sized_line idx fs) [i..<n]))"
  using assms(4)
proof (induction "n - i" arbitrary: i)
  case 0
  then show ?case by (simp add: write_faces.simps)
next
  case (Suc d)
  then have lt: "i < n" and d: "d = n - (i + 1)" and le: "i + 1 \<le> n" by simp_all
  have ifs: "i < length fs" using lt assms(1) by simp
  have nextle: "face_start fs i + unat (fs ! i) \<le> length idx"
    using face_start_mono [OF le, of fs] assms(2) ifs by (simp add: face_start_Suc)
  have b: "face_start fs i < 2 ^ 31" using nextle assms(3) by simp
  have sz: "unat (fs ! i) < 2 ^ 31" using nextle assms(3) by simp
  have base: "sint (of_nat (face_start fs i) :: u32) = int (face_start fs i)"
    using b by (rule sint_of_nat32)
  have cnt: "sint (fs ! i) = int (unat (fs ! i))" using sz by (rule sint_unat32)
  have rd: "array_read fs (int i) = Inr (fs ! i)" using ifs by (simp add: array_read_def)
  have c: "write_corners idx (int (face_start fs i)) (unat (fs ! i)) 0
             = Inr (corner_fields idx (face_start fs i) (unat (fs ! i)))"
    using nextle by (rule write_corners_fields)
  have nxt: "(of_nat (face_start fs i) + fs ! i :: u32) = of_nat (face_start fs (i + 1))"
    using ifs by (simp add: face_start_Suc)
  have ih: "write_faces idx (Some fs) n (i + 1) (of_nat (face_start fs (i + 1)))
              = Inr (concat (map (sized_line idx fs) [i + 1..<n]))"
    using Suc.hyps(1) [OF d le] .
  have upt: "[i..<n] = i # [i + 1..<n]" using lt by (simp add: upt_rec)
  show ?case
    using c ih
    apply (subst write_faces.simps)
    apply (simp only: lt if_True option.case sum.case rd base cnt nat_int nxt)
    apply (simp add: upt sized_line_def)
    done
qed




section \<open>Properties of \<open>readOFF\<close>\<close>






text \<open>
  Claim C4 (as stated): a file that declares more vertices or faces than it has lines makes
  \<open>readOFF\<close> fail with a report. The file below declares three vertices and has two vertex
  lines. At the end of the file \<open>getline\<close> returns \<open>-1\<close>, which the loop condition of
  \<open>readLine\<close> takes for true, and the line still in the buffer is accepted once more:
  \<open>readOFF\<close> returns three vertices, the third a copy of the second.
\<close>

theorem readOFF_missing_vertex_line:
  "readOFF scan_lf (Some (text_of_lines [''OFF'', ''3 0 0'', ''0 0 0'', ''1 0 0''])) 0 0
     = Some (Inr \<lparr>pVertices = [0, 0, 0, 1, 0, 0, 1, 0, 0], pFaceVertexIndices = [],
                    pFaceSizes = [], numVertices = 3, numFaces = 0\<rparr>)"
  by code_simp



section \<open>Properties of \<open>readOBJ\<close>\<close>

text \<open>
  Claim C9: the input of the four lines \<open>v 0 0 0\<close>, \<open>v 1 0 0\<close>, \<open>v 1 1 0\<close>, \<open>f 1 2 3\<close>
  is parsed to three vertices with these coordinates, no normals, no texcoords and one face of
  three corners with the vertex indices 0, 1, 2.
\<close>

theorem readOBJ_example:
  "readOBJ scan_lf (Some (text_of_lines [''v 0 0 0'', ''v 1 0 0'', ''v 1 1 0'', ''f 1 2 3'']))
     = Inr \<lparr>nVertices = 3, nNormals = 0, nTexCoords = 0, nFaces = 1,
        faceIndicesCounter = 3, nFaceIndices = 3,
        obj_pVertices = Some [Some 0, Some 0, Some 0, Some 1, Some 0, Some 0, Some 1, Some 1, Some 0],
        pNormals = None, pTexCoords = None, obj_pFaceSizes = Some [Some 3],
        obj_pFaceVertexIndices = Some [Some 0, Some 1, Some 2],
        pFaceVertexTexCoordIndices = None, pFaceVertexNormalIndices = None,
        obj_numVertices = 3, numNormals = 0, numTexcoords = 0, obj_numFaces = 1\<rparr>"
  by code_simp

text \<open>
  Claim C1 (as stated): each element of a corner token is stored as its own value minus 1.
  The face \<open>f 1/3/2 2/1/3 3/2/1\<close> has the texcoord indices 3, 1, 2 and the normal indices
  2, 3, 1. The body of the inner loop converts \<open>token\<close>, the whole corner token, for every
  element, so each of the three arrays receives the vertex index minus 1: 0, 1, 2.
\<close>

theorem readOBJ_corner_values:
  "readOBJ scan_lf (Some (text_of_lines
       [''v 0 0 0'', ''v 1 0 0'', ''v 1 1 0'', ''vt 0 0'', ''vt 1 0'', ''vt 1 1'',
        ''vn 0 0 1'', ''vn 0 1 0'', ''vn 1 0 0'', ''f 1/3/2 2/1/3 3/2/1'']))
     = Inr \<lparr>nVertices = 3, nNormals = 3, nTexCoords = 3, nFaces = 1,
        faceIndicesCounter = 3, nFaceIndices = 3,
        obj_pVertices = Some [Some 0, Some 0, Some 0, Some 1, Some 0, Some 0, Some 1, Some 1, Some 0],
        pNormals = Some [Some 0, Some 0, Some 1, Some 0, Some 1, Some 0, Some 1, Some 0, Some 0],
        pTexCoords = Some [Some 0, Some 0, Some 1, Some 0, Some 1, Some 1],
        obj_pFaceSizes = Some [Some 3],
        obj_pFaceVertexIndices = Some [Some 0, Some 1, Some 2],
        pFaceVertexTexCoordIndices = Some [Some 0, Some 1, Some 2],
        pFaceVertexNormalIndices = Some [Some 0, Some 1, Some 2],
        obj_numVertices = 3, numNormals = 3, numTexcoords = 3, obj_numFaces = 1\<rparr>"
  by code_simp

text \<open>
  Claim C6 (as stated): for a corner token with exactly two elements in a mesh without
  texcoords, the second element is written to the normal-index array.
  The file below has three normals and no texcoord, and the face \<open>f 1/3 2/1 3/2\<close>, whose
  second elements are 3, 1, 2. The inner loop does move to the normal case for the second
  element (\<open>faceVertexDataIt\<close> goes from 1 to 2, and the texcoord-index array is not
  allocated), but the value it stores there is the conversion of \<open>token\<close>, the whole corner
  token, as for claim C1: the normal-index array receives the vertex indices 0, 1, 2, not
  the second elements minus 1, which are 2, 0, 1. The second element reaches no array.
\<close>

theorem readOBJ_slash_shift_values:
  "readOBJ scan_lf (Some (text_of_lines
       [''v 0 0 0'', ''v 1 0 0'', ''v 1 1 0'',
        ''vn 0 0 1'', ''vn 0 1 0'', ''vn 1 0 0'', ''f 1/3 2/1 3/2'']))
     = Inr \<lparr>nVertices = 3, nNormals = 3, nTexCoords = 0, nFaces = 1,
        faceIndicesCounter = 3, nFaceIndices = 3,
        obj_pVertices = Some [Some 0, Some 0, Some 0, Some 1, Some 0, Some 0, Some 1, Some 1, Some 0],
        pNormals = Some [Some 0, Some 0, Some 1, Some 0, Some 1, Some 0, Some 1, Some 0, Some 0],
        pTexCoords = None,
        obj_pFaceSizes = Some [Some 3],
        obj_pFaceVertexIndices = Some [Some 0, Some 1, Some 2],
        pFaceVertexTexCoordIndices = None,
        pFaceVertexNormalIndices = Some [Some 0, Some 1, Some 2],
        obj_numVertices = 3, numNormals = 3, numTexcoords = 0, obj_numFaces = 1\<rparr>"
  by code_simp

lemma store_index_keeps:
  "store_index it val st = Inr st' \<Longrightarrow>
   faceIndicesCounter st' = faceIndicesCounter st \<and> obj_pFaceSizes st' = obj_pFaceSizes st
   \<and> nFaces st' = nFaces st \<and> nFaceIndices st' = nFaceIndices st \<and> nTexCoords st' = nTexCoords st"
  by (auto simp: store_index_def split: sum.splits if_splits)

lemma corner_elems_keeps:
  "corner_elems tok cs it st = Inr st' \<Longrightarrow>
   faceIndicesCounter st' = faceIndicesCounter st \<and> obj_pFaceSizes st' = obj_pFaceSizes st
   \<and> nFaces st' = nFaces st \<and> nFaceIndices st' = nFaceIndices st"
proof (induction tok cs it st rule: corner_elems.induct)
  case (1 tok cs it st)
  show ?case
  proof (cases "strtok_step CHR ''/'' cs")
    case NoToken
    with "1.prems" show ?thesis by (subst (asm) corner_elems.simps) simp
  next
    case Overrun
    with "1.prems" show ?thesis by (subst (asm) corner_elems.simps) simp
  next
    case (Token e after)
    define it1 where "it1 = (if it = 1 \<and> \<not> 0 < nTexCoords st then 2 else it)"
    show ?thesis
    proof (cases "scan_int tok")
      case None
      with "1.prems" Token have rec: "corner_elems tok (tl after) (it1 + 1) st = Inr st'"
        and big: "\<not> it1 \<le> 2"
        by (subst (asm) corner_elems.simps, simp add: Let_def it1_def split: if_splits)+
      show ?thesis
        using "1.IH"(1) [OF Token refl it1_def None big rec] .
    next
      case (Some p)
      obtain v r where p: "p = (v, r)" by (cases p)
      from "1.prems" Token Some p obtain val s1 where ci: "c_int v = Inr val"
        and nov: "\<not> (it1 \<le> 2 \<and> val - 1 < - (2 ^ 31))"
        and si: "store_index it1 val st = Inr s1"
        and rec: "corner_elems tok (tl after) (it1 + 1) s1 = Inr st'"
        by (subst (asm) corner_elems.simps)
           (auto simp: Let_def it1_def split: if_splits sum.splits)
      have "faceIndicesCounter st' = faceIndicesCounter s1 \<and> obj_pFaceSizes st' = obj_pFaceSizes s1
        \<and> nFaces st' = nFaces s1 \<and> nFaceIndices st' = nFaceIndices s1"
        using "1.IH"(2) [OF Token refl it1_def Some p [symmetric] ci nov si rec] .
      with store_index_keeps [OF si] show ?thesis by simp
    qed
  qed
qed

lemma face_tokens_counts:
  "face_tokens cs iter st = Inr (iter', st') \<Longrightarrow>
   faceIndicesCounter st' + iter = faceIndicesCounter st + iter' \<and> obj_pFaceSizes st' = obj_pFaceSizes st
   \<and> nFaces st' = nFaces st \<and> nFaceIndices st' = nFaceIndices st"
proof (induction cs iter st rule: face_tokens.induct)
  case (1 cs iter st)
  show ?case
  proof (cases "strtok_step CHR '' '' cs")
    case NoToken
    with "1.prems" show ?thesis by (subst (asm) face_tokens.simps) simp
  next
    case Overrun
    with "1.prems" show ?thesis by (subst (asm) face_tokens.simps) simp
  next
    case (Token tok after)
    show ?thesis
    proof (cases "hd (strncpy_buf tok) = CHR ''f''")
      case True
      with "1.prems" Token have "face_tokens (tl after) iter st = Inr (iter', st')"
        by (subst (asm) face_tokens.simps) simp
      from "1.IH"(1) [OF Token True this] show ?thesis .
    next
      case False
      with "1.prems" Token obtain s1 where
        ce: "corner_elems tok (strncpy_buf tok) 0 st = Inr s1"
        and rec: "face_tokens (tl after) (iter + 1)
                    (s1\<lparr>faceIndicesCounter := faceIndicesCounter s1 + 1\<rparr>) = Inr (iter', st')"
        by (subst (asm) face_tokens.simps) (auto split: sum.splits)
      from "1.IH"(2) [OF Token False ce rec] corner_elems_keeps [OF ce]
      show ?thesis by simp
    qed
  qed
qed

lemma strtok_tail_length:
  "strtok_step d cs = Token t after \<Longrightarrow>
   length (if hd after = NUL then after else tl after) < length cs"
  using strtok_step_shorter [of d cs t after] by simp

lemma count_tokens_bound:
  "count_tokens cs n = Inr c \<Longrightarrow> c \<le> n + length cs"
proof (induction cs n rule: count_tokens.induct)
  case (1 cs n)
  show ?case
  proof (cases "strtok_step CHR '' '' cs")
    case NoToken
    with "1.prems" show ?thesis by (subst (asm) count_tokens.simps) simp
  next
    case Overrun
    with "1.prems" show ?thesis by (subst (asm) count_tokens.simps) simp
  next
    case (Token t after)
    with "1.prems" have "count_tokens (if hd after = NUL then after else tl after) (n + 1) = Inr c"
      by (subst (asm) count_tokens.simps) simp
    from "1.IH" [OF Token this] strtok_tail_length [OF Token] show ?thesis by simp
  qed
qed


lemma line_cmd_FACE: "line_cmd l = FACE \<Longrightarrow> l \<noteq> [] \<and> hd l = CHR ''f''"
  by (cases l) (auto simp: line_cmd_def split: if_splits)

lemma obj_line_other:
  assumes "\<not> is_face_line raw" and "obj_line lf p raw st = Inr st'"
  shows "nFaces st' = nFaces st \<and> obj_pFaceSizes st' = obj_pFaceSizes st
       \<and> faceIndicesCounter st' = faceIndicesCounter st \<and> nFaceIndices st' = nFaceIndices st"
proof (cases "line_cmd (cstr (strip_line raw))")
  case FACE
  with assms(1) show ?thesis by (simp add: is_face_line_def)
next
  case UNKNOWN
  with assms(2) show ?thesis
    by (auto simp: obj_line_def Let_def split: if_splits)
next
  case VERTEX
  with assms(2) show ?thesis
    by (auto simp: obj_line_def Let_def split: if_splits list.splits sum.splits)
next
  case NORMAL
  with assms(2) show ?thesis
    by (auto simp: obj_line_def Let_def split: if_splits list.splits sum.splits)
next
  case TEXCOORD
  with assms(2) show ?thesis
    by (auto simp: obj_line_def Let_def split: if_splits list.splits sum.splits)
qed

lemma obj_line_face_first:
  assumes "is_face_line raw" and "obj_line lf 0 raw st = Inr st'"
  shows "nFaces st' = nFaces st + 1 \<and> obj_pFaceSizes st' = obj_pFaceSizes st
       \<and> nFaceIndices st' = nFaceIndices st"
proof -
  from assms(1) have f: "line_cmd (cstr (strip_line raw)) = FACE" by (simp add: is_face_line_def)
  from line_cmd_FACE [OF f] f assms(2) show ?thesis
    by (auto simp: obj_line_def Let_def split: if_splits)
qed

lemma obj_line_face_second:
  assumes "is_face_line raw" and "obj_line lf 1 raw st = Inr st'"
  shows "\<exists>a. obj_pFaceSizes st = Some a \<and> nFaces st < length a
           \<and> obj_pFaceSizes st' = Some (a[nFaces st := Some (of_nat (face_count raw))])
           \<and> nFaces st' = nFaces st + 1
           \<and> nFaceIndices st' = nFaceIndices st + face_count raw
           \<and> faceIndicesCounter st' = faceIndicesCounter st"
proof -
  from assms(1) have f: "line_cmd (cstr (strip_line raw)) = FACE" by (simp add: is_face_line_def)
  from line_cmd_FACE [OF f] f assms(2) show ?thesis
    by (auto simp: obj_line_def Let_def face_count_def slot_write_def array_write_def
        split: if_splits sum.splits option.splits)
qed

lemma obj_line_face_third:
  assumes "is_face_line raw" and "obj_line lf 2 raw st = Inr st'"
  shows "\<exists>a w iter. obj_pFaceSizes st = Some a \<and> nFaces st < length a \<and> a ! nFaces st = Some w
           \<and> int iter = sint w
           \<and> faceIndicesCounter st' = faceIndicesCounter st + iter
           \<and> obj_pFaceSizes st' = Some a
           \<and> nFaces st' = nFaces st + 1
           \<and> nFaceIndices st' = nFaceIndices st"
proof -
  from assms(1) have f: "line_cmd (cstr (strip_line raw)) = FACE" by (simp add: is_face_line_def)
  from line_cmd_FACE [OF f] f assms(2) obtain w iter where
    rd: "slot_read (obj_pFaceSizes st) (int (nFaces st)) = Inr w"
    and ft: "face_tokens (strip_line raw) 0 (st\<lparr>nFaces := nFaces st + 1\<rparr>) = Inr (iter, st')"
    and eq: "int iter = sint w"
    by (auto simp: obj_line_def Let_def split: if_splits sum.splits prod.splits)
  from rd obtain a where a: "obj_pFaceSizes st = Some a" "nFaces st < length a" "a ! nFaces st = Some w"
    by (auto simp: slot_read_def array_read_def split: option.splits if_splits sum.splits)
  from face_tokens_counts [OF ft] a eq show ?thesis by auto
qed


lemma face_counts_Cons:
  "face_counts (raw # ls) = (if is_face_line raw then face_count raw # face_counts ls else face_counts ls)"
  by (simp add: face_counts_def)

lemma obj_lines_first:
  "obj_lines lf 0 ls st = Inr st' \<Longrightarrow>
   nFaces st' = nFaces st + length (face_counts ls) \<and> obj_pFaceSizes st' = obj_pFaceSizes st
   \<and> nFaceIndices st' = nFaceIndices st"
proof (induction ls arbitrary: st)
  case Nil
  then show ?case by (simp add: face_counts_def)
next
  case (Cons raw ls)
  from Cons.prems obtain s1 where l: "obj_line lf 0 raw st = Inr s1"
    and r: "obj_lines lf 0 ls s1 = Inr st'"
    by (auto split: sum.splits)
  show ?case
  proof (cases "is_face_line raw")
    case True
    from obj_line_face_first [OF True l] Cons.IH [OF r] True show ?thesis
      by (simp add: face_counts_Cons)
  next
    case False
    from obj_line_other [OF False l] Cons.IH [OF r] False show ?thesis
      by (simp add: face_counts_Cons)
  qed
qed

lemma obj_lines_no_faces:
  "obj_lines lf p ls st = Inr st' \<Longrightarrow> face_counts ls = [] \<Longrightarrow> nFaceIndices st' = nFaceIndices st"
proof (induction ls arbitrary: st)
  case Nil
  then show ?case by simp
next
  case (Cons raw ls)
  from Cons.prems(1) obtain s1 where l: "obj_line lf p raw st = Inr s1"
    and r: "obj_lines lf p ls s1 = Inr st'"
    by (auto split: sum.splits)
  from Cons.prems(2) have nf: "\<not> is_face_line raw" and e: "face_counts ls = []"
    by (auto simp: face_counts_Cons split: if_splits)
  from obj_line_other [OF nf l] Cons.IH [OF r e] show ?case by simp
qed

lemma obj_lines_second:
  "obj_lines lf 1 ls st = Inr st' \<Longrightarrow> obj_pFaceSizes st = Some a \<Longrightarrow> nFaces st \<le> length a \<Longrightarrow>
   \<exists>a'. obj_pFaceSizes st' = Some a' \<and> length a' = length a
        \<and> nFaces st' = nFaces st + length (face_counts ls)
        \<and> nFaces st' \<le> length a
        \<and> (\<forall>k<nFaces st. a' ! k = a ! k)
        \<and> (\<forall>j<length (face_counts ls). a' ! (nFaces st + j) = Some (of_nat (face_counts ls ! j)))
        \<and> nFaceIndices st' = nFaceIndices st + sum_list (face_counts ls)"
proof (induction ls arbitrary: st a)
  case Nil
  then show ?case by (simp add: face_counts_def)
next
  case (Cons raw ls)
  from Cons.prems(1) obtain s1 where l: "obj_line lf 1 raw st = Inr s1"
    and r: "obj_lines lf 1 ls s1 = Inr st'"
    by (auto split: sum.splits)
  show ?case
  proof (cases "is_face_line raw")
    case False
    from obj_line_other [OF False l] have k: "nFaces s1 = nFaces st" "obj_pFaceSizes s1 = Some a"
      "nFaceIndices s1 = nFaceIndices st"
      using Cons.prems(2) by simp_all
    from Cons.IH [OF r k(2)] k False Cons.prems(3) show ?thesis
      by (simp add: face_counts_Cons)
  next
    case True
    from obj_line_face_second [OF True l] Cons.prems(2) have
      lt: "nFaces st < length a"
      and a1: "obj_pFaceSizes s1 = Some (a[nFaces st := Some (of_nat (face_count raw))])"
      and n1: "nFaces s1 = nFaces st + 1"
      and t1: "nFaceIndices s1 = nFaceIndices st + face_count raw"
      by auto
    have le1: "nFaces s1 \<le> length (a[nFaces st := Some (of_nat (face_count raw))])"
      using lt n1 by simp
    from Cons.IH [OF r a1 le1] obtain a' where
      a': "obj_pFaceSizes st' = Some a'" "length a' = length a"
      "nFaces st' = nFaces s1 + length (face_counts ls)"
      "nFaces st' \<le> length a"
      and old: "\<forall>k<nFaces s1. a' ! k = (a[nFaces st := Some (of_nat (face_count raw))]) ! k"
      and new: "\<forall>j<length (face_counts ls). a' ! (nFaces s1 + j) = Some (of_nat (face_counts ls ! j))"
      and tot: "nFaceIndices st' = nFaceIndices s1 + sum_list (face_counts ls)"
      by auto
    have o: "\<forall>k<nFaces st. a' ! k = a ! k"
      using old n1 by auto
    have here: "a' ! nFaces st = Some (of_nat (face_count raw))"
      using old n1 lt by auto
    have n: "\<forall>j<length (face_counts (raw # ls)).
               a' ! (nFaces st + j) = Some (of_nat (face_counts (raw # ls) ! j))"
    proof (intro allI impI)
      fix j assume j: "j < length (face_counts (raw # ls))"
      show "a' ! (nFaces st + j) = Some (of_nat (face_counts (raw # ls) ! j))"
      proof (cases j)
        case 0
        with here True show ?thesis by (simp add: face_counts_Cons)
      next
        case (Suc i)
        with j True have "i < length (face_counts ls)" by (simp add: face_counts_Cons)
        with new n1 Suc True show ?thesis by (simp add: face_counts_Cons)
      qed
    qed
    show ?thesis
      using a' o n tot t1 n1 True by (simp add: face_counts_Cons)
  qed
qed


lemma obj_lines_third:
  "obj_lines lf 2 ls st = Inr st' \<Longrightarrow> obj_pFaceSizes st = Some a \<Longrightarrow>
   \<forall>j<length (face_counts ls). a ! (nFaces st + j) = Some (of_nat (face_counts ls ! j)) \<Longrightarrow>
   \<forall>c\<in>set (face_counts ls). c < 2 ^ 31 \<Longrightarrow>
   faceIndicesCounter st' = faceIndicesCounter st + sum_list (face_counts ls)
   \<and> obj_pFaceSizes st' = Some a \<and> nFaceIndices st' = nFaceIndices st"
proof (induction ls arbitrary: st)
  case Nil
  then show ?case by (simp add: face_counts_def)
next
  case (Cons raw ls)
  from Cons.prems(1) obtain s1 where l: "obj_line lf 2 raw st = Inr s1"
    and r: "obj_lines lf 2 ls s1 = Inr st'"
    by (auto split: sum.splits)
  show ?case
  proof (cases "is_face_line raw")
    case False
    from obj_line_other [OF False l] Cons.prems(2) have k: "nFaces s1 = nFaces st"
      "obj_pFaceSizes s1 = Some a" "nFaceIndices s1 = nFaceIndices st"
      "faceIndicesCounter s1 = faceIndicesCounter st"
      by simp_all
    have h3: "\<forall>j<length (face_counts ls). a ! (nFaces s1 + j) = Some (of_nat (face_counts ls ! j))"
      using Cons.prems(3) False k(1) by (simp add: face_counts_Cons)
    have h4: "\<forall>c\<in>set (face_counts ls). c < 2 ^ 31"
      using Cons.prems(4) False by (simp add: face_counts_Cons)
    from Cons.IH [OF r k(2) h3 h4] k False show ?thesis
      by (simp add: face_counts_Cons)
  next
    case True
    from obj_line_face_third [OF True l] Cons.prems(2) obtain w iter where
      w: "a ! nFaces st = Some w" and it: "int iter = sint w"
      and c1: "faceIndicesCounter s1 = faceIndicesCounter st + iter"
      and a1: "obj_pFaceSizes s1 = Some a" and n1: "nFaces s1 = nFaces st + 1"
      and t1: "nFaceIndices s1 = nFaceIndices st"
      by auto
    have "0 < length (face_counts (raw # ls))" using True by (simp add: face_counts_Cons)
    from Cons.prems(3) [rule_format, OF this]
    have "a ! (nFaces st + 0) = Some (of_nat (face_counts (raw # ls) ! 0))" .
    with w True have weq: "w = of_nat (face_count raw)" by (simp add: face_counts_Cons)
    have "face_count raw < 2 ^ 31" using Cons.prems(4) True by (simp add: face_counts_Cons)
    then have "sint w = int (face_count raw)" unfolding weq by (rule sint_of_nat32)
    with it have iter: "iter = face_count raw" by simp
    have h3: "\<forall>j<length (face_counts ls). a ! (nFaces s1 + j) = Some (of_nat (face_counts ls ! j))"
    proof (intro allI impI)
      fix j assume "j < length (face_counts ls)"
      then have "Suc j < length (face_counts (raw # ls))" using True by (simp add: face_counts_Cons)
      from Cons.prems(3) [rule_format, OF this] True n1 show
        "a ! (nFaces s1 + j) = Some (of_nat (face_counts ls ! j))"
        by (simp add: face_counts_Cons)
    qed
    have h4: "\<forall>c\<in>set (face_counts ls). c < 2 ^ 31"
      using Cons.prems(4) True by (simp add: face_counts_Cons)
    from Cons.IH [OF r a1 h3 h4] c1 t1 iter True show ?thesis
      by (simp add: face_counts_Cons)
  qed
qed

lemma raw_lines_length:
  "raw \<in> set (raw_lines cur cs) \<Longrightarrow> length raw \<le> length cur + length cs"
proof (induction cs arbitrary: cur)
  case Nil
  then show ?case by (simp split: if_splits)
next
  case (Cons c cs)
  show ?case
  proof (cases "c = NL")
    case True
    with Cons.prems have "raw = cur @ [NL] \<or> raw \<in> set (raw_lines [] cs)" by simp
    then show ?thesis using Cons.IH [of "[]"] by auto
  next
    case False
    with Cons.prems have "raw \<in> set (raw_lines (cur @ [c]) cs)" by simp
    from Cons.IH [OF this] show ?thesis by simp
  qed
qed

lemma face_count_le: "face_count raw \<le> length raw"
proof (cases "count_tokens (drop 2 (strip_line raw)) 0")
  case (Inl e)
  then show ?thesis by (simp add: face_count_def)
next
  case (Inr c)
  from count_tokens_bound [OF Inr] have "c \<le> length (strip_line raw) - 2" by simp
  then show ?thesis using Inr by (simp add: face_count_def strip_line_def)
qed

lemma face_counts_small:
  assumes "length content < 2 ^ 31"
  shows "\<forall>c\<in>set (face_counts (raw_lines [] content)). c < 2 ^ 31"
proof
  fix c assume "c \<in> set (face_counts (raw_lines [] content))"
  then obtain raw where raw: "raw \<in> set (raw_lines [] content)" and c: "c = face_count raw"
    by (auto simp: face_counts_def)
  from raw_lines_length [OF raw] face_count_le [of raw] c assms show "c < 2 ^ 31" by simp
qed

lemma readOBJ_totals:
  assumes ok: "readOBJ lf (Some content) = Inr st" and small: "length content < 2 ^ 31"
  shows "faceIndicesCounter st = nFaceIndices st
       \<and> obj_pFaceSizes st = Some (map (\<lambda>c. Some (of_nat c)) (face_counts (raw_lines [] content)))
       \<and> nFaceIndices st = sum_list (face_counts (raw_lines [] content))"
proof -
  define ls where "ls = raw_lines [] content"
  define cnts where "cnts = face_counts ls"
  define reset :: "'a obj_state \<Rightarrow> 'a obj_state" where
    "reset = (\<lambda>s. s\<lparr>nVertices := 0, nNormals := 0, nTexCoords := 0, nFaces := 0,
                 faceIndicesCounter := 0\<rparr>)"
  from ok obtain s0 s1 where p0: "obj_pass lf 0 ls obj_init = Inr s0"
    and p1: "obj_pass lf 1 ls s0 = Inr s1" and p2: "obj_pass lf 2 ls s1 = Inr st"
    by (auto simp: readOBJ_def ls_def split: sum.splits)
  from p0 obtain s0' where l0: "obj_lines lf 0 ls (reset obj_init) = Inr s0'"
    and s0: "s0 = after_first_pass s0'"
    by (auto simp: obj_pass_def reset_def split: sum.splits)
  from obj_lines_first [OF l0] have f0: "nFaces s0' = length cnts" "nFaceIndices s0' = 0"
    by (simp_all add: reset_def obj_init_def cnts_def)
  from p1 obtain s1' where l1: "obj_lines lf 1 ls (reset s0) = Inr s1'"
    and s1: "after_second_pass s1' = Inr s1"
    by (auto simp: obj_pass_def reset_def split: sum.splits)
  from s1 have nz: "nFaceIndices s1' \<noteq> 0"
    and s1eq: "obj_pFaceSizes s1 = obj_pFaceSizes s1'" "nFaceIndices s1 = nFaceIndices s1'"
    by (auto simp: after_second_pass_def split: if_splits)
  have t0: "nFaceIndices (reset s0) = 0"
    using f0 by (simp add: reset_def s0 after_first_pass_def)
  have pos: "cnts \<noteq> []"
  proof
    assume "cnts = []"
    from obj_lines_no_faces [OF l1 this [unfolded cnts_def]] t0 nz show False by simp
  qed
  then have a0: "obj_pFaceSizes (reset s0) = Some (replicate (length cnts) None)"
    using f0 by (simp add: reset_def s0 after_first_pass_def)
  have le0: "nFaces (reset s0) \<le> length (replicate (length cnts) (None :: u32 option))"
    by (simp add: reset_def)
  from obj_lines_second [OF l1 a0 le0] obtain a' where
    a': "obj_pFaceSizes s1' = Some a'" "length a' = length cnts"
    and new: "\<forall>j<length cnts. a' ! j = Some (of_nat (cnts ! j))"
    and tot: "nFaceIndices s1' = sum_list cnts"
    using t0 by (auto simp: reset_def cnts_def)
  have aeq: "a' = map (\<lambda>c. Some (of_nat c)) cnts"
    using a'(2) new by (intro nth_equalityI) simp_all
  from p2 have l2: "obj_lines lf 2 ls (reset s1) = Inr st"
    by (auto simp: obj_pass_def reset_def split: sum.splits)
  have a2: "obj_pFaceSizes (reset s1) = Some a'"
    using s1eq a' by (simp add: reset_def)
  have h3: "\<forall>j<length (face_counts ls). a' ! (nFaces (reset s1) + j) = Some (of_nat (face_counts ls ! j))"
    using new by (simp add: reset_def cnts_def)
  have h4: "\<forall>c\<in>set (face_counts ls). c < 2 ^ 31"
    unfolding ls_def using small by (rule face_counts_small)
  from obj_lines_third [OF l2 a2 h3 h4] s1eq tot aeq show ?thesis
    by (simp add: reset_def cnts_def ls_def)
qed


lemma obj_line_mismatch:
  assumes "line_cmd (cstr (strip_line raw)) = FACE"
    and "slot_read (obj_pFaceSizes st) (int (nFaces st)) = Inr c"
    and "face_tokens (strip_line raw) 0 (st\<lparr>nFaces := nFaces st + 1\<rparr>) = Inr (iter, st2)"
    and "int iter \<noteq> sint c"
  shows "obj_line lf 2 raw st = Inl (Fatal ''error: have %d vertices when there should be =%d'')"
  using assms line_cmd_FACE [OF assms(1)] by (simp add: obj_line_def Let_def)

text \<open>
  Claim C5: for every input that \<open>readOBJ\<close> accepts, the number of corners filled in the
  third pass (the final \<open>faceIndicesCounter\<close>) equals the total \<open>nFaceIndices\<close> of the
  second pass, which is the sum of the recorded face sizes; and a face line whose number of
  corners in the third pass differs from its recorded size ends the process with a report.
  The file is shorter than \<open>2^31\<close> bytes, so that the \<open>int\<close> counters do not overflow.
\<close>

theorem readOBJ_corner_totals:
  "(readOBJ lf (Some content) = Inr st \<and> length content < 2 ^ 31 \<longrightarrow>
      faceIndicesCounter st = nFaceIndices st
      \<and> (\<exists>sizes. obj_pFaceSizes st = Some (map Some sizes)
            \<and> nFaceIndices st = sum_list (map unat sizes)))
   \<and> (line_cmd (cstr (strip_line raw)) = FACE
        \<and> slot_read (obj_pFaceSizes s) (int (nFaces s)) = Inr c
        \<and> face_tokens (strip_line raw) 0 (s\<lparr>nFaces := nFaces s + 1\<rparr>) = Inr (iter, s2)
        \<and> int iter \<noteq> sint c \<longrightarrow>
      obj_line lf 2 raw s = Inl (Fatal ''error: have %d vertices when there should be =%d''))"
proof (intro conjI impI)
  assume a: "readOBJ lf (Some content) = Inr st \<and> length content < 2 ^ 31"
  then have ok: "readOBJ lf (Some content) = Inr st" and small: "length content < 2 ^ 31"
    by simp_all
  define cnts where "cnts = face_counts (raw_lines [] content)"
  note t = readOBJ_totals [OF ok small, folded cnts_def]
  show "faceIndicesCounter st = nFaceIndices st" using t by simp
  have b: "\<forall>c\<in>set cnts. c < 2 ^ 32"
    using face_counts_small [OF small] unfolding cnts_def by fastforce
  have "map unat (map of_nat cnts :: u32 list) = cnts"
    using b by (induction cnts) (simp_all add: unat_of_nat32)
  then have "obj_pFaceSizes st = Some (map Some (map of_nat cnts))
      \<and> nFaceIndices st = sum_list (map unat (map of_nat cnts :: u32 list))"
    using t by (simp add: comp_def)
  then show "\<exists>sizes. obj_pFaceSizes st = Some (map Some sizes)
      \<and> nFaceIndices st = sum_list (map unat sizes)"
    by blast
next
  assume "line_cmd (cstr (strip_line raw)) = FACE
        \<and> slot_read (obj_pFaceSizes s) (int (nFaces s)) = Inr c
        \<and> face_tokens (strip_line raw) 0 (s\<lparr>nFaces := nFaces s + 1\<rparr>) = Inr (iter, s2)
        \<and> int iter \<noteq> sint c"
  then show "obj_line lf 2 raw s = Inl (Fatal ''error: have %d vertices when there should be =%d'')"
    using obj_line_mismatch by blast
qed

theorem readOBJ_corner_totals_witness:
  "readOBJ scan_lf (Some (text_of_lines [''v 0 0 0'', ''f 1 1 1'', ''f 1 1 1 1'']))
     = Inr \<lparr>nVertices = 1, nNormals = 0, nTexCoords = 0, nFaces = 2,
        faceIndicesCounter = 7, nFaceIndices = 7,
        obj_pVertices = Some [Some 0, Some 0, Some 0],
        pNormals = None, pTexCoords = None, obj_pFaceSizes = Some [Some 3, Some 4],
        obj_pFaceVertexIndices = Some [Some 0, Some 0, Some 0, Some 0, Some 0, Some 0, Some 0],
        pFaceVertexTexCoordIndices = None, pFaceVertexNormalIndices = None,
        obj_numVertices = 1, numNormals = 0, numTexcoords = 0, obj_numFaces = 2\<rparr>
   \<and> obj_line scan_lf 2 (''f 1 2 3'' @ [NL]) four_corners
       = Inl (Fatal ''error: have %d vertices when there should be =%d'')"
proof -
  have ok: "readOBJ scan_lf (Some (text_of_lines [''v 0 0 0'', ''f 1 1 1'', ''f 1 1 1 1'']))
     = Inr \<lparr>nVertices = 1, nNormals = 0, nTexCoords = 0, nFaces = 2,
        faceIndicesCounter = 7, nFaceIndices = 7,
        obj_pVertices = Some [Some 0, Some 0, Some 0],
        pNormals = None, pTexCoords = None, obj_pFaceSizes = Some [Some 3, Some 4],
        obj_pFaceVertexIndices = Some [Some 0, Some 0, Some 0, Some 0, Some 0, Some 0, Some 0],
        pFaceVertexTexCoordIndices = None, pFaceVertexNormalIndices = None,
        obj_numVertices = 1, numNormals = 0, numTexcoords = 0, obj_numFaces = 2\<rparr>"
    by code_simp
  have small: "length (text_of_lines [''v 0 0 0'', ''f 1 1 1'', ''f 1 1 1 1'']) < 2 ^ 31"
    by (simp add: text_of_lines_def)
  have fl: "line_cmd (cstr (strip_line (''f 1 2 3'' @ [NL]))) = FACE"
    by code_simp
  have rd: "slot_read (obj_pFaceSizes four_corners) (int (nFaces four_corners)) = Inr 4"
    by code_simp
  have ft: "face_tokens (strip_line (''f 1 2 3'' @ [NL])) 0
              (four_corners\<lparr>nFaces := nFaces four_corners + 1\<rparr>)
            = Inr (3, four_corners\<lparr>nFaces := 1, faceIndicesCounter := 3,
                       obj_pFaceVertexIndices := Some [Some 0, Some 1, Some 2, None]\<rparr>)"
    by code_simp
  have ne: "int 3 \<noteq> sint (4 :: u32)" by simp
  show ?thesis
    using readOBJ_corner_totals [where lf = scan_lf
        and content = "text_of_lines [''v 0 0 0'', ''f 1 1 1'', ''f 1 1 1 1'']"
        and raw = "''f 1 2 3'' @ [NL]" and s = four_corners and c = 4 and iter = 3] ok small fl rd ft ne
    by simp
qed

section \<open>Properties of \<open>writeOFF\<close> followed by \<open>readOFF\<close>\<close>

lemma digit_cases: "d < 10 \<Longrightarrow> d = 0 \<or> d = 1 \<or> d = 2 \<or> d = 3 \<or> d = 4 \<or> d = 5 \<or> d = 6 \<or> d = 7 \<or> d = 8 \<or> d = (9::nat)"
  by arith

lemma digit_char_props:
  assumes "d < 10"
  shows "is_digit (digit_char d)" and "digit_val (digit_char d) = d"
  using digit_cases [OF assms]
  by (auto simp: digit_char_def is_digit_def digit_val_def)

lemma is_digit_not_other:
  "is_digit c \<Longrightarrow> \<not> is_space c \<and> c \<noteq> CHR ''-'' \<and> c \<noteq> CHR ''+'' \<and> c \<noteq> CHR ''.''
     \<and> c \<noteq> CHR '' '' \<and> c \<noteq> NL \<and> c \<noteq> NUL \<and> c \<noteq> CHR ''#''"
  by (auto simp: is_digit_def is_space_def NL_def NUL_def)

lemma fmt_nat_digits: "list_all is_digit (fmt_nat n) \<and> fmt_nat n \<noteq> []"
proof (induction n rule: fmt_nat.induct)
  case (1 n)
  show ?case
  proof (cases "n < 10")
    case True
    then show ?thesis by (subst (1 2) fmt_nat.simps) (simp add: digit_char_props)
  next
    case False
    with 1 show ?thesis by (subst (1 2) fmt_nat.simps) (simp add: digit_char_props)
  qed
qed

lemma dec_snoc: "dec (xs @ [c]) = 10 * dec xs + digit_val c"
  by (simp add: dec_def)

lemma dec_fmt_nat: "dec (fmt_nat n) = n"
proof (induction n rule: fmt_nat.induct)
  case (1 n)
  show ?case
  proof (cases "n < 10")
    case True
    then show ?thesis by (subst fmt_nat.simps) (simp add: dec_def digit_char_props)
  next
    case False
    with 1 have "dec (fmt_nat (n div 10)) = n div 10" by simp
    with False show ?thesis
      by (subst fmt_nat.simps) (simp add: dec_snoc digit_char_props)
  qed
qed

lemma takeWhile_digits:
  assumes "list_all is_digit ds" and "rest = [] \<or> \<not> is_digit (hd rest)"
  shows "takeWhile is_digit (ds @ rest) = ds" and "drop (length ds) (ds @ rest) = rest"
proof -
  have "takeWhile is_digit rest = []" using assms(2) by (cases rest) auto
  moreover have "\<forall>x\<in>set ds. is_digit x" using assms(1) by (simp add: list_all_iff)
  ultimately show "takeWhile is_digit (ds @ rest) = ds" by (simp add: takeWhile_append2)
  show "drop (length ds) (ds @ rest) = rest" by simp
qed

lemma scan_int_digits:
  assumes "list_all is_digit ds" and "ds \<noteq> []" and "rest = [] \<or> \<not> is_digit (hd rest)"
  shows "scan_int (ds @ rest) = Some (int (dec ds), rest)"
    and "scan_int (CHR ''-'' # ds @ rest) = Some (- int (dec ds), rest)"
proof -
  obtain d ds' where ds: "ds = d # ds'" using assms(2) by (cases ds) auto
  with assms(1) have d: "is_digit d" by simp
  note n = is_digit_not_other [OF d]
  have tw: "takeWhile is_digit (d # ds' @ rest) = d # ds'"
    using takeWhile_digits(1) [OF assms(1,3)] ds by simp
  show "scan_int (ds @ rest) = Some (int (dec ds), rest)"
    using n d tw unfolding ds by (simp add: scan_int_def Let_def)
  have sp: "\<not> is_space CHR ''-''" by (simp add: is_space_def)
  show "scan_int (CHR ''-'' # ds @ rest) = Some (- int (dec ds), rest)"
    using sp tw unfolding ds by (simp add: scan_int_def Let_def)
qed

lemma scan_int_fmt_d:
  assumes "rest = [] \<or> \<not> is_digit (hd rest)"
  shows "scan_int (fmt_d i @ rest) = Some (i, rest)"
proof (cases "i < 0")
  case True
  have "scan_int (CHR ''-'' # fmt_nat (nat (- i)) @ rest) = Some (- int (dec (fmt_nat (nat (- i)))), rest)"
    using fmt_nat_digits [of "nat (- i)"] assms by (intro scan_int_digits(2)) simp_all
  with True show ?thesis by (simp add: fmt_d_def dec_fmt_nat)
next
  case False
  have "scan_int (fmt_nat (nat i) @ rest) = Some (int (dec (fmt_nat (nat i))), rest)"
    using fmt_nat_digits [of "nat i"] assms by (intro scan_int_digits(1)) simp_all
  with False show ?thesis by (simp add: fmt_d_def dec_fmt_nat)
qed

lemma dec_append: "dec (xs @ ys) = dec xs * 10 ^ length ys + dec ys"
proof (induction ys rule: rev_induct)
  case Nil
  then show ?case by (simp add: dec_def)
next
  case (snoc y ys)
  have "dec (xs @ ys @ [y]) = 10 * dec (xs @ ys) + digit_val y"
    using dec_snoc [of "xs @ ys" y] by simp
  also have "\<dots> = 10 * (dec xs * 10 ^ length ys + dec ys) + digit_val y"
    by (simp add: snoc.IH)
  also have "\<dots> = dec xs * 10 ^ length (ys @ [y]) + dec (ys @ [y])"
    by (simp add: dec_snoc algebra_simps)
  finally show ?case .
qed

lemma six_digits_props:
  "length (six_digits k) = 6" "list_all is_digit (six_digits k)"
  by (simp_all add: six_digits_def digit_char_props)

lemma dec_Cons: "dec (d # ds) = digit_val d * 10 ^ length ds + dec ds"
  using dec_append [of "[d]" ds] by (simp add: dec_def)

lemma dec_low_digits:
  "dec (map (\<lambda>j. digit_char (k div 10 ^ j mod 10)) (rev [0..<n])) = k mod 10 ^ n"
proof (induction n)
  case 0
  then show ?case by (simp add: dec_def)
next
  case (Suc n)
  have "k mod (10 ^ n * 10) = 10 ^ n * (k div 10 ^ n mod 10) + k mod 10 ^ n"
    by (rule mod_mult2_eq)
  then show ?case
    using Suc by (simp add: dec_Cons digit_char_props mult.commute)
qed

lemma six_digits_rev: "six_digits k = map (\<lambda>j. digit_char (k div 10 ^ j mod 10)) (rev [0..<6])"
  by (simp add: six_digits_def upt_rec)

lemma dec_six_digits:
  assumes "k < 1000000"
  shows "dec (six_digits k) = k"
  using dec_low_digits [of k 6] assms unfolding six_digits_rev by simp

lemma scan_exponent_none:
  "rest \<noteq> [] \<Longrightarrow> hd rest = CHR '' '' \<or> hd rest = NL \<Longrightarrow> scan_exponent rest = (0, rest)"
  by (auto simp: scan_exponent_def NL_def)

lemma scan_decimal_unsigned:
  assumes "s \<noteq> []" "\<not> is_space (hd s)" "hd s \<noteq> CHR ''-''" "hd s \<noteq> CHR ''+''"
    and "takeWhile is_digit s = ip" "ip \<noteq> []" "drop (length ip) s = CHR ''.'' # w"
    and "takeWhile is_digit w = fp" "drop (length fp) w = rest" "scan_exponent rest = (0, rest)"
  shows "scan_decimal s = Some (of_nat (dec (ip @ fp)) / 10 ^ length fp, rest)"
proof -
  have t: "dropWhile is_space s = s" using assms(1,2) by (cases s) auto
  show ?thesis
    by (simp add: scan_decimal_def Let_def t assms del: of_nat_add of_nat_mult)
qed

lemma scan_decimal_negative:
  assumes "takeWhile is_digit u = ip" "ip \<noteq> []" "drop (length ip) u = CHR ''.'' # w"
    and "takeWhile is_digit w = fp" "drop (length fp) w = rest" "scan_exponent rest = (0, rest)"
  shows "scan_decimal (CHR ''-'' # u) = Some (- (of_nat (dec (ip @ fp)) / 10 ^ length fp), rest)"
proof -
  have sp: "\<not> is_space CHR ''-''" by (simp add: is_space_def)
  show ?thesis
    by (simp add: scan_decimal_def Let_def sp assms del: of_nat_add of_nat_mult)
qed

lemma scan_decimal_decimal:
  assumes ip: "list_all is_digit ip" "ip \<noteq> []" and fp: "list_all is_digit fp"
    and rest: "rest \<noteq> []" "hd rest = CHR '' '' \<or> hd rest = NL"
  shows "scan_decimal (ip @ CHR ''.'' # fp @ rest) = Some (of_nat (dec (ip @ fp)) / 10 ^ length fp, rest)"
    and "scan_decimal (CHR ''-'' # ip @ CHR ''.'' # fp @ rest)
           = Some (- (of_nat (dec (ip @ fp)) / 10 ^ length fp), rest)"
proof -
  have d: "is_digit (hd ip)" using ip by (cases ip) auto
  note n = is_digit_not_other [OF d]
  have nd: "CHR ''.'' # fp @ rest = [] \<or> \<not> is_digit (hd (CHR ''.'' # fp @ rest))"
    by (simp add: is_digit_def)
  have rd: "rest = [] \<or> \<not> is_digit (hd rest)"
    using rest by (auto simp: is_digit_def NL_def)
  have f1: "takeWhile is_digit (ip @ CHR ''.'' # fp @ rest) = ip"
    using takeWhile_digits(1) [OF ip(1) nd] .
  have f2: "drop (length ip) (ip @ CHR ''.'' # fp @ rest) = CHR ''.'' # fp @ rest" by simp
  have f3: "takeWhile is_digit (fp @ rest) = fp"
    using takeWhile_digits(1) [OF fp rd] .
  have f3': "drop (length fp) (fp @ rest) = rest" by simp
  have f4: "scan_exponent rest = (0, rest)"
    using rest by (rule scan_exponent_none)
  have h: "hd (ip @ CHR ''.'' # fp @ rest) = hd ip" using ip(2) by simp
  have ne: "ip @ CHR ''.'' # fp @ rest \<noteq> []" by simp
  show "scan_decimal (ip @ CHR ''.'' # fp @ rest) = Some (of_nat (dec (ip @ fp)) / 10 ^ length fp, rest)"
    using n by (intro scan_decimal_unsigned [OF ne _ _ _ f1 ip(2) f2 f3 f3' f4]) (simp_all add: h)
  show "scan_decimal (CHR ''-'' # ip @ CHR ''.'' # fp @ rest)
           = Some (- (of_nat (dec (ip @ fp)) / 10 ^ length fp), rest)"
    by (rule scan_decimal_negative [OF f1 ip(2) f2 f3 f3' f4])
qed

lemma fmt_f_parts:
  "fmt_f x = (if x < 0 then [CHR ''-''] else [])
      @ fmt_nat (nat (round_half_even (\<bar>x\<bar> * 1000000)) div 1000000) @ CHR ''.''
      # six_digits (nat (round_half_even (\<bar>x\<bar> * 1000000)) mod 1000000)"
  by (simp add: fmt_f_def Let_def)

lemma scan_decimal_fmt_f:
  assumes "rest \<noteq> []" "hd rest = CHR '' '' \<or> hd rest = NL"
  shows "scan_decimal (fmt_f x @ rest) = Some (round6 x, rest)"
proof -
  define m where "m = nat (round_half_even (\<bar>x\<bar> * 1000000))"
  define ip where "ip = fmt_nat (m div 1000000)"
  define fp where "fp = six_digits (m mod 1000000)"
  have ipd: "list_all is_digit ip" "ip \<noteq> []" using fmt_nat_digits by (simp_all add: ip_def)
  have fpd: "list_all is_digit fp" and fl: "length fp = 6"
    by (simp_all add: fp_def six_digits_props)
  have "dec (ip @ fp) = m div 1000000 * 10 ^ 6 + m mod 1000000"
    by (simp add: dec_append fl) (simp add: ip_def fp_def dec_fmt_nat dec_six_digits)
  then have dm: "dec (ip @ fp) = m" by simp
  have val: "(of_nat (dec (ip @ fp)) :: rat) / 10 ^ length fp = of_nat m / 1000000"
    by (simp add: dm fl)
  show ?thesis
  proof (cases "x < 0")
    case True
    then have "fmt_f x @ rest = CHR ''-'' # ip @ CHR ''.'' # fp @ rest"
      by (simp add: fmt_f_parts ip_def fp_def m_def)
    with scan_decimal_decimal(2) [OF ipd fpd assms] val True show ?thesis
      by (simp add: round6_def Let_def m_def)
  next
    case False
    then have "fmt_f x @ rest = ip @ CHR ''.'' # fp @ rest"
      by (simp add: fmt_f_parts ip_def fp_def m_def)
    with scan_decimal_decimal(1) [OF ipd fpd assms] val False show ?thesis
      by (simp add: round6_def Let_def m_def)
  qed
qed

lemma scan_lf_fmt_f:
  assumes "rest \<noteq> []" "hd rest = CHR '' '' \<or> hd rest = NL"
  shows "scan_lf (fmt_f x @ rest) = Some (reread x, rest)"
  using scan_decimal_fmt_f [OF assms, of x] by (simp add: scan_lf_def reread_def)

lemma next_line_data: "NL \<notin> set l \<Longrightarrow> next_line (l @ NL # rest) = (l @ [NL], rest)"
proof -
  assume nl: "NL \<notin> set l"
  then have "dropWhile (\<lambda>c. c \<noteq> NL) (l @ NL # rest) = NL # rest"
    by (induction l) auto
  moreover from nl have "takeWhile (\<lambda>c. c \<noteq> NL) (l @ NL # rest) = l"
    by (induction l) auto
  ultimately show ?thesis by (simp add: next_line_def)
qed

lemma cstr_plain: "list_all plain l \<Longrightarrow> cstr (l @ [NL]) = l @ [NL]"
  by (induction l) (auto simp: cstr_def plain_def NL_def NUL_def)

lemma readLine_data:
  assumes "list_all plain l" and "l \<noteq> []" and "hd l \<noteq> CHR ''#''"
  shows "readLine (l @ NL # rest) buf = Some (Inr (True, rest, Some (l @ [NL])))"
proof -
  have nl: "NL \<notin> set l" using assms(1) by (auto simp: list_all_iff plain_def)
  have g: "getline (l @ NL # rest) buf = (int (length (l @ [NL])), rest, Some (l @ [NL]))"
    by (simp add: getline_def next_line_data [OF nl] cstr_plain [OF assms(1)])
  have h: "hd (l @ [NL]) = hd l" using assms(2) by simp
  have len: "1 < length (l @ [NL])" using assms(2) by (cases l) auto
  show ?thesis
    using assms(3) len by (subst readLine.simps) (simp add: g h del: length_append)
qed

lemma plain_digits: "list_all is_digit ds \<Longrightarrow> list_all plain ds"
  by (induction ds) (auto simp: plain_def dest: is_digit_not_other)

lemma fmt_d_plain: "list_all plain (fmt_d i)" and fmt_d_nonempty: "fmt_d i \<noteq> []"
  and fmt_d_hd: "hd (fmt_d i) \<noteq> CHR ''#''" and fmt_d_no_blank: "CHR '' '' \<notin> set (fmt_d i)"
proof -
  have d: "list_all is_digit (fmt_nat n)" and ne: "fmt_nat n \<noteq> []" for n
    using fmt_nat_digits by simp_all
  have p: "list_all plain (fmt_nat n)" for n using d by (rule plain_digits)
  show "list_all plain (fmt_d i)" using p by (simp add: fmt_d_def plain_def NL_def NUL_def)
  show "fmt_d i \<noteq> []" using ne by (simp add: fmt_d_def)
  have "is_digit (hd (fmt_nat n))" for n using d [of n] ne [of n] by (cases "fmt_nat n") auto
  then show "hd (fmt_d i) \<noteq> CHR ''#''" by (auto simp: fmt_d_def dest: is_digit_not_other)
  have "CHR '' '' \<notin> set (fmt_nat n)" for n
    using d [of n] by (auto simp: list_all_iff dest: is_digit_not_other)
  then show "CHR '' '' \<notin> set (fmt_d i)" by (simp add: fmt_d_def)
qed

lemma fmt_f_plain: "list_all plain (fmt_f x)" and fmt_f_nonempty: "fmt_f x \<noteq> []"
  and fmt_f_hd: "hd (fmt_f x) \<noteq> CHR ''#''"
proof -
  have d: "list_all is_digit (fmt_nat n)" and ne: "fmt_nat n \<noteq> []" for n
    using fmt_nat_digits by simp_all
  have p: "list_all plain (fmt_nat n)" for n using d by (rule plain_digits)
  have p6: "list_all plain (six_digits k)" for k
    using six_digits_props(2) by (rule plain_digits)
  show "list_all plain (fmt_f x)"
    using p p6 by (simp add: fmt_f_parts plain_def NL_def NUL_def)
  show "fmt_f x \<noteq> []" by (simp add: fmt_f_parts)
  have "is_digit (hd (fmt_nat n))" for n using d [of n] ne [of n] by (cases "fmt_nat n") auto
  then show "hd (fmt_f x) \<noteq> CHR ''#''"
    using ne by (auto simp: fmt_f_parts dest: is_digit_not_other)
qed

lemma scan_lf_blank: "scan_lf (CHR '' '' # s) = scan_lf s"
  by (simp add: scan_lf_def scan_decimal_def is_space_def)

lemma scan_int_blank: "scan_int (CHR '' '' # s) = scan_int s"
  by (simp add: scan_int_def is_space_def)

lemma scan_vertex_line:
  "scan_seq scan_lf 3 (fmt_f x @ '' '' @ fmt_f y @ '' '' @ fmt_f z @ [NL])
     = [reread x, reread y, reread z]"
proof -
  have a: "scan_lf (fmt_f x @ CHR '' '' # fmt_f y @ CHR '' '' # fmt_f z @ [NL])
             = Some (reread x, CHR '' '' # fmt_f y @ CHR '' '' # fmt_f z @ [NL])"
    by (rule scan_lf_fmt_f) simp_all
  have b: "scan_lf (fmt_f y @ CHR '' '' # fmt_f z @ [NL])
             = Some (reread y, CHR '' '' # fmt_f z @ [NL])"
    by (rule scan_lf_fmt_f) simp_all
  have c: "scan_lf (fmt_f z @ [NL]) = Some (reread z, [NL])"
    by (rule scan_lf_fmt_f) simp_all
  show ?thesis
    by (simp add: numeral_3_eq_3 a b c scan_lf_blank)
qed

lemma vertex_line_shape:
  "list_all plain (fmt_f x @ '' '' @ fmt_f y @ '' '' @ fmt_f z)"
  using fmt_f_plain by (simp add: plain_def NL_def NUL_def)

lemma write_vertices_lines:
  assumes "3 * n \<le> length vs" and "i \<le> n"
  shows "write_vertices (Some vs) n i = Inr (concat (map (vertex_line vs) [i..<n]))"
  using assms(2)
proof (induction "n - i" arbitrary: i)
  case 0
  then show ?case by (subst write_vertices.simps) simp
next
  case (Suc d)
  then have lt: "i < n" and d: "d = n - (i + 1)" and le: "i + 1 \<le> n" by simp_all
  have r: "ptr_read (Some vs) (int i * 3 + 0) = Inr (vs ! (3 * i))"
    "ptr_read (Some vs) (int i * 3 + 1) = Inr (vs ! (3 * i + 1))"
    "ptr_read (Some vs) (int i * 3 + 2) = Inr (vs ! (3 * i + 2))"
    using lt assms(1) by (simp_all add: ptr_read_def array_read_def nat_add_distrib nat_mult_distrib mult.commute)
  have ih: "write_vertices (Some vs) n (i + 1) = Inr (concat (map (vertex_line vs) [i + 1..<n]))"
    using Suc.hyps(1) [OF d le] .
  have upt: "[i..<n] = i # [i + 1..<n]" using lt by (simp add: upt_rec)
  show ?case
    apply (subst write_vertices.simps)
    apply (simp only: lt if_True r sum.case ih)
    apply (simp add: upt vertex_line_def)
    done
qed

lemma drop3:
  assumes "3 * i + 3 \<le> length xs"
  shows "drop (3 * i) xs = xs ! (3 * i) # xs ! (3 * i + 1) # xs ! (3 * i + 2) # drop (3 * (i + 1)) xs"
proof -
  have a: "drop (3 * i) xs = xs ! (3 * i) # drop (Suc (3 * i)) xs"
    using assms by (intro Cons_nth_drop_Suc [symmetric]) simp
  have b: "drop (Suc (3 * i)) xs = xs ! (3 * i + 1) # drop (Suc (Suc (3 * i))) xs"
    using assms Cons_nth_drop_Suc [of "Suc (3 * i)" xs] by simp
  have c: "drop (Suc (Suc (3 * i))) xs = xs ! (3 * i + 2) # drop (Suc (Suc (Suc (3 * i)))) xs"
    using assms Cons_nth_drop_Suc [of "Suc (Suc (3 * i))" xs] by simp
  have e: "Suc (Suc (Suc (3 * i))) = 3 * (i + 1)" by simp
  show ?thesis by (simp only: a b c e)
qed

lemma read_vertices_lines:
  assumes "3 * n \<le> length vs" and "3 * n < 2 ^ 31" and "i \<le> n"
  shows "\<exists>line'. read_vertices scan_lf n i (concat (map (vertex_line vs) [i..<n]) @ rest) line acc
           = Some (Inr (rest, line', acc @ map reread (drop (3 * i) (take (3 * n) vs))))"
  using assms(3)
proof (induction "n - i" arbitrary: i line acc)
  case 0
  then show ?case by (subst read_vertices.simps) simp
next
  case (Suc d)
  then have lt: "i < n" and d: "d = n - (i + 1)" and le: "i + 1 \<le> n" by simp_all
  define x where "x = vs ! (3 * i)"
  define y where "y = vs ! (3 * i + 1)"
  define z where "z = vs ! (3 * i + 2)"
  define body where "body = fmt_f x @ '' '' @ fmt_f y @ '' '' @ fmt_f z"
  define more where "more = concat (map (vertex_line vs) [i + 1..<n]) @ rest"
  have upt: "[i..<n] = i # [i + 1..<n]" using lt by (simp add: upt_rec)
  have whole: "concat (map (vertex_line vs) [i..<n]) @ rest = body @ NL # more"
    by (simp add: upt vertex_line_def body_def more_def x_def y_def z_def)
  have bp: "list_all plain body" unfolding body_def by (rule vertex_line_shape)
  have bne: "body \<noteq> []" by (simp add: body_def fmt_f_nonempty)
  have bhd: "hd body \<noteq> CHR ''#''" using fmt_f_hd [of x] fmt_f_nonempty [of x] by (simp add: body_def)
  have rl: "readLine (body @ NL # more) line = Some (Inr (True, more, Some (body @ [NL])))"
    using bp bne bhd by (rule readLine_data)
  have sc: "scan_seq scan_lf 3 (body @ [NL]) = [reread x, reread y, reread z]"
    using scan_vertex_line [of x y z] by (simp add: body_def)
  have g: "\<not> (2 :: int) ^ 31 \<le> int i * 3 + 2"
  proof -
    have "3 * i + 2 < 2 ^ 31" using lt assms(2) by simp
    then have "int (3 * i + 2) < 2 ^ 31" by (metis of_nat_less_iff of_nat_numeral of_nat_power)
    then show ?thesis by simp
  qed
  from Suc.hyps(1) [OF d le, of "Some (body @ [NL])" "acc @ [reread x, reread y, reread z]"]
  obtain line' where ih: "read_vertices scan_lf n (i + 1) more (Some (body @ [NL]))
       (acc @ [reread x, reread y, reread z])
     = Some (Inr (rest, line', (acc @ [reread x, reread y, reread z])
                @ map reread (drop (3 * (i + 1)) (take (3 * n) vs))))"
    unfolding more_def by blast
  have dr: "drop (3 * i) (take (3 * n) vs) = x # y # z # drop (3 * (i + 1)) (take (3 * n) vs)"
    using drop3 [of i "take (3 * n) vs"] lt assms(1) by (simp add: x_def y_def z_def)
  have "read_vertices scan_lf n i (body @ NL # more) line acc
      = Some (Inr (rest, line', acc @ map reread (drop (3 * i) (take (3 * n) vs))))"
    apply (subst read_vertices.simps)
    apply (simp only: lt if_True rl option.case sum.case prod.case not_True_eq_False if_False sc list.case g ih)
    apply (simp add: dr)
    done
  then show ?case unfolding whole by blast
qed

lemma sint_bounds32: "- (2 ^ 31) \<le> sint (w :: u32)" "sint (w :: u32) < 2 ^ 31"
  using sint_ge [of w] sint_lt [of w] by simp_all

lemma int_lt_2p31: "n < 2 ^ 31 \<Longrightarrow> int n < 2 ^ 31"
  by (metis of_nat_less_iff of_nat_numeral of_nat_power)

lemma c_int_nat: "n < 2 ^ 31 \<Longrightarrow> c_int (int n) = Inr (int n)"
  using int_lt_2p31 [of n] by (simp add: c_int_def)

lemma strstr_blank: "CHR '' '' \<notin> set pre \<Longrightarrow> strstr (pre @ CHR '' '' # x) '' '' = Some (CHR '' '' # x)"
  by (induction pre) auto

lemma fields_plain:
  "list_all plain (concat (map (\<lambda>k. CHR '' '' # fmt_d (f k)) ks))"
  using fmt_d_plain by (induction ks) (simp_all add: plain_def NL_def NUL_def)

lemma fields_next:
  "\<not> is_digit (hd (concat (map (\<lambda>k. CHR '' '' # fmt_d (f k)) ks) @ [NL]))"
  by (cases ks) (simp_all add: is_digit_def NL_def)

lemma partial_write:
  assumes "p < length idx"
  shows "array_write (partial idx p) (int p) (idx ! p) = Inr (partial idx (p + 1))"
proof -
  have "(partial idx p)[p := Some (idx ! p)] = partial idx (p + 1)"
    using assms
    by (intro nth_equalityI) (auto simp: partial_def nth_append nth_list_update less_Suc_eq)
  moreover have "length (partial idx p) = length idx" using assms by (simp add: partial_def)
  ultimately show ?thesis using assms by (simp add: array_write_def)
qed

lemma read_face_indices_fields:
  assumes "CHR '' '' \<notin> set pre" and "j \<le> m" and "st + m \<le> length idx"
  shows "read_face_indices (int m) j
           (pre @ concat (map (\<lambda>k. CHR '' '' # fmt_d (sint (idx ! (st + k)))) [j..<m]) @ [NL])
           (int st) (partial idx (st + j))
         = Inr (partial idx (st + m))"
  using assms(1,2)
proof (induction "m - j" arbitrary: j pre)
  case 0
  then show ?case by (subst read_face_indices.simps) simp
next
  case (Suc d)
  then have lt: "j < m" and d: "d = m - (j + 1)" and le: "j + 1 \<le> m" by simp_all
  define w where "w = idx ! (st + j)"
  define more where "more = concat (map (\<lambda>k. CHR '' '' # fmt_d (sint (idx ! (st + k)))) [j + 1..<m]) @ [NL]"
  have upt: "[j..<m] = j # [j + 1..<m]" using lt by (simp add: upt_rec)
  have whole: "pre @ concat (map (\<lambda>k. CHR '' '' # fmt_d (sint (idx ! (st + k)))) [j..<m]) @ [NL]
             = pre @ CHR '' '' # fmt_d (sint w) @ more"
    by (simp add: upt more_def w_def)
  have ss: "strstr (pre @ CHR '' '' # fmt_d (sint w) @ more) '' '' = Some (CHR '' '' # fmt_d (sint w) @ more)"
    using Suc.prems(1) by (rule strstr_blank)
  have nd: "more = [] \<or> \<not> is_digit (hd more)"
    unfolding more_def
    using fields_next [of "\<lambda>k. sint (idx ! (st + k))" "[j + 1..<m]"] by simp
  have sc: "scan_int (fmt_d (sint w) @ more) = Some (sint w, more)"
    using nd by (rule scan_int_fmt_d)
  have ci: "c_int (sint w) = Inr (sint w)"
    using sint_bounds32 [of w] by (simp add: c_int_def)
  have aw: "array_write (partial idx (st + j)) (int st + int j) (word_of_int (sint w))
              = Inr (partial idx (st + (j + 1)))"
    using partial_write [of "st + j" idx] lt assms(3) by (simp add: w_def)
  have ih: "read_face_indices (int m) (j + 1) (fmt_d (sint w) @ more) (int st)
              (partial idx (st + (j + 1))) = Inr (partial idx (st + m))"
    using Suc.hyps(1) [OF d fmt_d_no_blank le, of "sint w"] unfolding more_def .
  have jm: "int j < int m" using lt by simp
  show ?case
    unfolding whole
    apply (subst read_face_indices.simps)
    apply (simp only: jm if_True ss option.case list.sel sc prod.case ci sum.case aw ih)
    done
qed

lemma corner_fields_alt:
  "corner_fields idx st k = concat (map (\<lambda>j. CHR '' '' # fmt_d (sint (idx ! (st + j)))) [0..<k])"
  by (simp add: corner_fields_def)

lemma sized_line_shape:
  "sized_line idx fs i = (fmt_d (int (unat (fs ! i))) @ corner_fields idx (face_start fs i) (unat (fs ! i))) @ [NL]"
  "list_all plain (fmt_d (int (unat (fs ! i))) @ corner_fields idx (face_start fs i) (unat (fs ! i)))"
  "fmt_d (int (unat (fs ! i))) @ corner_fields idx (face_start fs i) (unat (fs ! i)) \<noteq> []"
  "hd (fmt_d (int (unat (fs ! i))) @ corner_fields idx (face_start fs i) (unat (fs ! i))) \<noteq> CHR ''#''"
proof -
  show "sized_line idx fs i = (fmt_d (int (unat (fs ! i))) @ corner_fields idx (face_start fs i) (unat (fs ! i))) @ [NL]"
    by (simp add: sized_line_def)
  show "list_all plain (fmt_d (int (unat (fs ! i))) @ corner_fields idx (face_start fs i) (unat (fs ! i)))"
    using fmt_d_plain fields_plain [of "\<lambda>j. sint (idx ! (face_start fs i + j))"]
    by (simp add: corner_fields_alt)
  show "fmt_d (int (unat (fs ! i))) @ corner_fields idx (face_start fs i) (unat (fs ! i)) \<noteq> []"
    using fmt_d_nonempty by simp
  show "hd (fmt_d (int (unat (fs ! i))) @ corner_fields idx (face_start fs i) (unat (fs ! i))) \<noteq> CHR ''#''"
    using fmt_d_nonempty [of "int (unat (fs ! i))"] fmt_d_hd [of "int (unat (fs ! i))"] by simp
qed

lemma scan_sized_line:
  "scan_int ((fmt_d (int (unat (fs ! i))) @ corner_fields idx (face_start fs i) (unat (fs ! i))) @ [NL])
     = Some (int (unat (fs ! i)), corner_fields idx (face_start fs i) (unat (fs ! i)) @ [NL])"
proof -
  have "corner_fields idx (face_start fs i) (unat (fs ! i)) @ [NL] = []
      \<or> \<not> is_digit (hd (corner_fields idx (face_start fs i) (unat (fs ! i)) @ [NL]))"
    using fields_next [of "\<lambda>j. sint (idx ! (face_start fs i + j))" "[0..<unat (fs ! i)]"]
    by (simp add: corner_fields_alt)
  from scan_int_fmt_d [OF this] show ?thesis by simp
qed

lemma face_start_int: "i < length fs \<Longrightarrow>
  int (face_start fs i) + int (unat (fs ! i)) = int (face_start fs (i + 1))"
  by (simp add: face_start_Suc)

lemma read_face_sizes_lines:
  assumes "n \<le> length fs" and "\<forall>s\<in>set fs. 3 \<le> unat s" and "face_start fs n < 2 ^ 31" and "i \<le> n"
  shows "\<exists>line'. read_face_sizes n i (concat (map (sized_line idx fs) [i..<n]) @ rest) line acc
                     (int (face_start fs i))
           = Some (Inr (rest, line', acc @ drop i (take n fs), int (face_start fs n)))"
  using assms(4)
proof (induction "n - i" arbitrary: i line acc)
  case 0
  then show ?case by (subst read_face_sizes.simps) simp
next
  case (Suc d)
  then have lt: "i < n" and d: "d = n - (i + 1)" and le: "i + 1 \<le> n" by simp_all
  have ifs: "i < length fs" using lt assms(1) by simp
  define s where "s = fs ! i"
  define body where "body = fmt_d (int (unat (fs ! i))) @ corner_fields idx (face_start fs i) (unat (fs ! i))"
  define more where "more = concat (map (sized_line idx fs) [i + 1..<n]) @ rest"
  have upt: "[i..<n] = i # [i + 1..<n]" using lt by (simp add: upt_rec)
  have whole: "concat (map (sized_line idx fs) [i..<n]) @ rest = body @ NL # more"
    by (simp add: upt sized_line_shape(1) body_def more_def)
  have rl: "readLine (body @ NL # more) line = Some (Inr (True, more, Some (body @ [NL])))"
    unfolding body_def using sized_line_shape(2,3,4) by (rule readLine_data)
  have sc: "scan_int (body @ [NL]) = Some (int (unat s), corner_fields idx (face_start fs i) (unat s) @ [NL])"
    unfolding body_def s_def by (rule scan_sized_line)
  have nxt: "face_start fs (i + 1) \<le> face_start fs n" using le by (rule face_start_mono)
  have fsum: "int (face_start fs i) + int (unat s) = int (face_start fs (i + 1))"
    unfolding s_def using ifs by (rule face_start_int)
  have small: "unat s < 2 ^ 31"
    using nxt assms(3) ifs by (simp add: face_start_Suc s_def)
  have ci: "c_int (int (unat s)) = Inr (int (unat s))"
    using small by (rule c_int_nat)
  have "3 \<le> unat s" using assms(2) ifs by (simp add: s_def)
  then have ge3: "\<not> int (unat s) < 3" by linarith
  have g: "\<not> (2 :: int) ^ 31 \<le> int (face_start fs (i + 1))"
    using int_lt_2p31 [of "face_start fs (i + 1)"] nxt assms(3) by simp
  have wd: "(word_of_int (int (unat s)) :: u32) = s" by simp
  from Suc.hyps(1) [OF d le, of "Some (body @ [NL])" "acc @ [s]"]
  obtain line' where ih: "read_face_sizes n (i + 1) more (Some (body @ [NL])) (acc @ [s])
       (int (face_start fs (i + 1)))
     = Some (Inr (rest, line', (acc @ [s]) @ drop (i + 1) (take n fs), int (face_start fs n)))"
    unfolding more_def by blast
  have dr: "drop i (take n fs) = s # drop (i + 1) (take n fs)"
    using Cons_nth_drop_Suc [of i "take n fs"] lt ifs by (simp add: s_def)
  have "read_face_sizes n i (body @ NL # more) line acc (int (face_start fs i))
      = Some (Inr (rest, line', acc @ drop i (take n fs), int (face_start fs n)))"
    apply (subst read_face_sizes.simps)
    apply (simp only: lt if_True rl option.case sum.case prod.case not_True_eq_False if_False sc ci ge3 g wd fsum ih)
    apply (simp add: dr)
    done
  then show ?case unfolding whole by blast
qed

lemma read_faces_lines:
  assumes "n \<le> length fs" and "face_start fs n \<le> length idx" and "length idx < 2 ^ 31" and "i \<le> n"
  shows "\<exists>line'. read_faces n i (concat (map (sized_line idx fs) [i..<n]) @ rest) line
                     (int (face_start fs i)) (partial idx (face_start fs i))
           = Some (Inr (rest, line', partial idx (face_start fs n)))"
  using assms(4)
proof (induction "n - i" arbitrary: i line)
  case 0
  then show ?case by (subst read_faces.simps) simp
next
  case (Suc d)
  then have lt: "i < n" and d: "d = n - (i + 1)" and le: "i + 1 \<le> n" by simp_all
  have ifs: "i < length fs" using lt assms(1) by simp
  define s where "s = fs ! i"
  define st where "st = face_start fs i"
  define hdr where "hdr = fmt_d (int (unat (fs ! i)))"
  define body where "body = hdr @ corner_fields idx (face_start fs i) (unat (fs ! i))"
  define more where "more = concat (map (sized_line idx fs) [i + 1..<n]) @ rest"
  have upt: "[i..<n] = i # [i + 1..<n]" using lt by (simp add: upt_rec)
  have whole: "concat (map (sized_line idx fs) [i..<n]) @ rest = body @ NL # more"
    by (simp add: upt sized_line_shape(1) body_def more_def hdr_def)
  have rl: "readLine (body @ NL # more) line = Some (Inr (True, more, Some (body @ [NL])))"
    unfolding body_def hdr_def using sized_line_shape(2,3,4) by (rule readLine_data)
  have sc: "scan_int (body @ [NL]) = Some (int (unat s), corner_fields idx (face_start fs i) (unat s) @ [NL])"
    unfolding body_def hdr_def s_def by (rule scan_sized_line)
  have nxt: "face_start fs (i + 1) \<le> face_start fs n" using le by (rule face_start_mono)
  have fsum: "int st + int (unat s) = int (face_start fs (i + 1))"
    unfolding s_def st_def using ifs by (rule face_start_int)
  have inb: "st + unat s \<le> length idx"
    using nxt assms(2) ifs by (simp add: face_start_Suc s_def st_def)
  have small: "unat s < 2 ^ 31" using inb assms(3) by simp
  have ci: "c_int (int (unat s)) = Inr (int (unat s))"
    using small by (rule c_int_nat)
  have fi: "read_face_indices (int (unat s)) 0 (body @ [NL]) (int st) (partial idx st)
              = Inr (partial idx (st + unat s))"
    using read_face_indices_fields [of hdr 0 "unat s" st idx] fmt_d_no_blank inb
    by (simp add: body_def hdr_def corner_fields_alt s_def st_def)
  have g: "\<not> ((2 :: int) ^ 31 \<le> int (face_start fs (i + 1))
            \<or> int (face_start fs (i + 1)) < - (2 ^ 31))"
    using int_lt_2p31 [of "face_start fs (i + 1)"] nxt assms(2,3) by simp
  have pn: "partial idx (st + unat s) = partial idx (face_start fs (i + 1))"
    using ifs by (simp add: face_start_Suc st_def s_def)
  from Suc.hyps(1) [OF d le, of "Some (body @ [NL])"]
  obtain line' where ih: "read_faces n (i + 1) more (Some (body @ [NL]))
       (int (face_start fs (i + 1))) (partial idx (face_start fs (i + 1)))
     = Some (Inr (rest, line', partial idx (face_start fs n)))"
    unfolding more_def by blast
  have "read_faces n i (body @ NL # more) line (int st) (partial idx st)
      = Some (Inr (rest, line', partial idx (face_start fs n)))"
    apply (subst read_faces.simps)
    apply (simp only: lt if_True rl option.case sum.case prod.case not_True_eq_False if_False sc ci fi g pn fsum ih)
    done
  then show ?case unfolding whole st_def by blast
qed

lemma write_edges_none: "write_edges None 0 0 = Inr []"
  by (subst write_edges.simps) simp

lemma scan_counts_line:
  "scan_counts ((fmt_d (sint a) @ '' '' @ fmt_d (sint b) @ '' '' @ fmt_d 0) @ [NL]) nv0 nf0 = Inr (a, b)"
proof -
  have nd: "\<And>s. \<not> is_digit (hd (CHR '' '' # s))" "\<not> is_digit (hd [NL])"
    by (simp_all add: is_digit_def NL_def)
  have a: "scan_int (fmt_d (sint a) @ CHR '' '' # fmt_d (sint b) @ CHR '' '' # fmt_d 0 @ [NL])
      = Some (sint a, CHR '' '' # fmt_d (sint b) @ CHR '' '' # fmt_d 0 @ [NL])"
    using nd by (intro scan_int_fmt_d) simp
  have b: "scan_int (fmt_d (sint b) @ CHR '' '' # fmt_d 0 @ [NL])
      = Some (sint b, CHR '' '' # fmt_d 0 @ [NL])"
    using nd by (intro scan_int_fmt_d) simp
  have c: "scan_int (fmt_d 0 @ [NL]) = Some (0, [NL])"
    using nd by (intro scan_int_fmt_d) simp
  have s: "scan_seq scan_int 3 ((fmt_d (sint a) @ '' '' @ fmt_d (sint b) @ '' '' @ fmt_d 0) @ [NL])
      = [sint a, sint b, 0]"
    by (simp add: numeral_3_eq_3 a b c scan_int_blank)
  have ci: "c_int (sint a) = Inr (sint a)" "c_int (sint b) = Inr (sint b)" "c_int 0 = Inr 0"
    using sint_bounds32 [of a] sint_bounds32 [of b] by (simp_all add: c_int_def)
  show ?thesis unfolding scan_counts_def s by (simp add: ci)
qed

lemma counts_line_shape:
  "list_all plain (fmt_d a @ '' '' @ fmt_d b @ '' '' @ fmt_d c)"
  "fmt_d a @ '' '' @ fmt_d b @ '' '' @ fmt_d c \<noteq> []"
  "hd (fmt_d a @ '' '' @ fmt_d b @ '' '' @ fmt_d c) \<noteq> CHR ''#''"
  using fmt_d_plain fmt_d_nonempty [of a] fmt_d_hd [of a]
  by (simp_all add: plain_def NL_def NUL_def)

lemma face_start_all: "face_start fs (length fs) = sum_list (map unat fs)"
  by (simp add: face_start_def)

lemma length_le_sum:
  "\<forall>s\<in>set fs. 3 \<le> unat (s :: u32) \<Longrightarrow> length fs \<le> sum_list (map unat fs)"
  by (induction fs) auto

lemma roundtrip:
  assumes vs: "length vs = 3 * unat nv" "length vs < 2 ^ 31"
    and fs: "length fs = unat nf" "\<forall>s\<in>set fs. 3 \<le> unat s"
    and idx: "sum_list (map unat fs) = length idx" "length idx < 2 ^ 31"
  shows "\<exists>out. writeOFF True (Some vs) idx (Some fs) None nv nf 0 = Inr out
           \<and> readOFF scan_lf (Some out) nv0 nf0
               = Some (Inr \<lparr>pVertices = map reread vs, pFaceVertexIndices = map Some idx,
                              pFaceSizes = fs, numVertices = nv, numFaces = nf\<rparr>)"
proof -
  define n where "n = unat nv"
  define k where "k = unat nf"
  define vlines where "vlines = concat (map (vertex_line vs) [0..<n])"
  define flines where "flines = concat (map (sized_line idx fs) [0..<k])"
  define cl where "cl = fmt_d (sint nv) @ '' '' @ fmt_d (sint nf) @ '' '' @ fmt_d 0"
  define hb where "hb = ''OFF'' @ [NL]"
  define out where "out = ''OFF'' @ NL # cl @ NL # vlines @ flines"
  have nsmall: "n < 2 ^ 31" using vs by (simp add: n_def)
  have ksmall: "k < 2 ^ 31"
    using length_le_sum [OF fs(2)] fs(1) idx by (simp add: k_def)
  have sn: "nat (sint nv) = n" using sint_unat32 [of nv] nsmall by (simp add: n_def)
  have sk: "nat (sint nf) = k" using sint_unat32 [of nf] ksmall by (simp add: k_def)
  have fsn: "face_start fs k = length idx"
    using face_start_all [of fs] fs(1) idx(1) by (simp add: k_def)
  \<comment> \<open>the file written\<close>
  have wv: "write_vertices (Some vs) n 0 = Inr vlines"
    unfolding vlines_def using vs(1) by (intro write_vertices_lines) (simp_all add: n_def)
  have wf: "write_faces idx (Some fs) k 0 0 = Inr flines"
    using write_faces_sized_from [of k fs idx 0] fs(1) fsn idx(2)
    by (simp add: flines_def k_def face_start_def)
  have w: "writeOFF True (Some vs) idx (Some fs) None nv nf 0 = Inr out"
    by (simp add: writeOFF_def sn sk wv wf write_edges_none out_def cl_def)
  \<comment> \<open>the header and the counts\<close>
  have r1: "readLine out None = Some (Inr (True, cl @ NL # vlines @ flines, Some hb))"
    unfolding out_def hb_def by (rule readLine_data) (simp_all add: plain_def NL_def NUL_def)
  have hdr: "strstr hb ''OFF'' \<noteq> None" by (simp add: hb_def)
  have r2: "readLine (cl @ NL # vlines @ flines) (Some hb)
      = Some (Inr (True, vlines @ flines, Some (cl @ [NL])))"
    unfolding cl_def using counts_line_shape by (rule readLine_data)
  have sc: "scan_counts (cl @ [NL]) nv0 nf0 = Inr (nv, nf)"
    unfolding cl_def by (rule scan_counts_line)
  \<comment> \<open>the three loops\<close>
  have v3: "3 * n \<le> length vs" "3 * n < 2 ^ 31" using vs by (simp_all add: n_def)
  from read_vertices_lines [OF v3, of 0 flines "Some (cl @ [NL])" "[]"]
  obtain line3 where rv: "read_vertices scan_lf n 0 (vlines @ flines) (Some (cl @ [NL])) []
      = Some (Inr (flines, line3, map reread vs))"
    using vs(1) by (auto simp: vlines_def n_def)
  have kf: "k \<le> length fs" using fs(1) by (simp add: k_def)
  have f31: "face_start fs k < 2 ^ 31" using fsn idx(2) by simp
  from read_face_sizes_lines [OF kf fs(2) f31, of 0 idx "[]" line3 "[]"]
  obtain line4 where rs: "read_face_sizes k 0 flines line3 [] 0
      = Some (Inr ([], line4, fs, int (length idx)))"
    using fs(1) fsn by (auto simp: flines_def k_def face_start_def)
  have fle: "face_start fs k \<le> length idx" using fsn by simp
  from read_faces_lines [OF kf fle idx(2), of 0 "[]" line4]
  obtain line5 where rf: "read_faces k 0 flines line4 0 (replicate (length idx) None)
      = Some (Inr ([], line5, map Some idx))"
    using fsn by (auto simp: flines_def partial_def face_start_def)
  have arr: "readOFF_arrays scan_lf (vlines @ flines) (Some (cl @ [NL])) nv nf
      = Some (Inr \<lparr>pVertices = map reread vs, pFaceVertexIndices = map Some idx,
                     pFaceSizes = fs, numVertices = nv, numFaces = nf\<rparr>)"
    by (simp add: readOFF_arrays_def and_then_def sk rv rs rf n_def [symmetric])
  have cnt: "readOFF_counts scan_lf (cl @ NL # vlines @ flines) (Some hb) nv0 nf0
      = Some (Inr \<lparr>pVertices = map reread vs, pFaceVertexIndices = map Some idx,
                     pFaceSizes = fs, numVertices = nv, numFaces = nf\<rparr>)"
    by (simp add: readOFF_counts_def and_then_def r2 sc arr)
  have "readOFF scan_lf (Some out) nv0 nf0
      = Some (Inr \<lparr>pVertices = map reread vs, pFaceVertexIndices = map Some idx,
                     pFaceSizes = fs, numVertices = nv, numFaces = nf\<rparr>)"
    using hdr by (simp add: readOFF_def and_then_def r1 cnt)
  with w show ?thesis by blast
qed

lemma write_then_read_rounds:
  assumes "length vs = 3 * unat nv" "length vs < 2 ^ 31"
    and "length fs = unat nf" "\<forall>s\<in>set fs. 3 \<le> unat s"
    and "sum_list (map unat fs) = length idx" "length idx < 2 ^ 31"
  shows "write_then_read vs idx fs nv nf
           = Some (Inr \<lparr>pVertices = map reread vs, pFaceVertexIndices = map Some idx,
                           pFaceSizes = fs, numVertices = nv, numFaces = nf\<rparr>)"
  using roundtrip [OF assms, of 0 0] by (auto simp: write_then_read_def)

lemma round6_tiny: "round6 (1 / 2097152) = 0"
proof -
  have fl: "\<lfloor>(15625 :: rat) / 32768\<rfloor> = 0" by (rule floor_unique) simp_all
  have a: "round_half_even (15625 / 32768) = 0"
    unfolding round_half_even_def Let_def fl by simp
  have b: "\<bar>1 / 2097152\<bar> * 1000000 = (15625 / 32768 :: rat)" by simp
  show ?thesis unfolding round6_def Let_def b a by simp
qed

lemma round6_tenth: "round6 (3602879701896397 / 36028797018963968) = 1 / 10"
proof -
  define y :: rat where "y = 3602879701896397 / 36028797018963968 * 1000000"
  have fl: "\<lfloor>y\<rfloor> = 100000" by (rule floor_unique) (simp_all add: y_def)
  have "y - 100000 < 1 / 2" by (simp add: y_def)
  then have a: "round_half_even y = 100000"
    unfolding round_half_even_def Let_def fl by simp
  have b: "\<bar>3602879701896397 / 36028797018963968\<bar> * 1000000 = y" by (simp add: y_def)
  have c: "\<not> (3602879701896397 / 36028797018963968 :: rat) < 0" by simp
  show ?thesis unfolding round6_def Let_def b a using c by simp
qed

lemma round6_fixed: "round6 0 = 0" "round6 1 = 1" "round6 (- 1) = - 1" "round6 (1 / 2) = 1 / 2"
  by (simp_all add: round6_def round_half_even_def Let_def)

lemma to_double_fixed:
  "to_double 0 = 0" "to_double 1 = 1" "to_double (- 1) = - 1" "to_double (1 / 2) = 1 / 2"
  "to_double (1 / 2097152) = 1 / 2097152"
  "to_double (3602879701896397 / 36028797018963968) = 3602879701896397 / 36028797018963968"
  by code_simp+

lemma to_double_tenth: "to_double (1 / 10) = 3602879701896397 / 36028797018963968"
  by code_simp

lemma is_double_examples:
  "is_double 0" "is_double 1" "is_double (- 1)" "is_double (1 / 2)" "is_double (1 / 2097152)"
  "is_double (3602879701896397 / 36028797018963968)"
  by (simp_all add: is_double_def to_double_fixed pow2_def)

text \<open>
  Claim C3 (as stated): writing a mesh and reading it back yields identical vertex coordinates
  and identical face-size and corner-index arrays. The mesh below has the coordinate
  \<open>2^-21 = 1/2097152\<close>, a \<open>double\<close>; \<open>%f\<close> prints it as \<open>0.000000\<close>, and the
  coordinate read back is 0.
\<close>

theorem writeOFF_readOFF_counterexample:
  "write_then_read [1 / 2097152, 0, 0, 1, 0, 0, 1, 1, 0] [0, 1, 2] [3] 3 1
     = Some (Inr \<lparr>pVertices = [0, 0, 0, 1, 0, 0, 1, 1, 0],
                    pFaceVertexIndices = [Some 0, Some 1, Some 2],
                    pFaceSizes = [3], numVertices = 3, numFaces = 1\<rparr>)"
  using write_then_read_rounds [of "[1 / 2097152, 0, 0, 1, 0, 0, 1, 1, 0]" 3 "[3]" 1 "[0, 1, 2]"]
  by (simp add: reread_def round6_tiny round6_fixed to_double_fixed)

text \<open>
  Claim C3 (amended): for a mesh of finite \<open>double\<close> coordinates with \<open>numVertices\<close>
  vertices, \<open>numFaces\<close> faces of at least 3 corners each and a corner-index array that holds
  exactly the corners of the faces (both arrays with fewer than \<open>2^31\<close> entries), writing
  and reading back yields the same counts and identical face-size and corner-index arrays;
  each coordinate comes back as the \<open>double\<close> nearest to its value rounded to six decimals,
  which is what \<open>%lf\<close> makes of the text \<open>%f\<close> printed. (The coordinates are compared as
  numbers.)
\<close>

theorem writeOFF_readOFF_roundtrip:
  assumes "length vs = 3 * unat nv" "length vs < 2 ^ 31" "\<forall>x\<in>set vs. is_double x"
    and "length fs = unat nf" "\<forall>s\<in>set fs. 3 \<le> unat s"
    and "sum_list (map unat fs) = length idx" "length idx < 2 ^ 31"
  shows "write_then_read vs idx fs nv nf
           = Some (Inr \<lparr>pVertices = map reread vs, pFaceVertexIndices = map Some idx,
                           pFaceSizes = fs, numVertices = nv, numFaces = nf\<rparr>)"
  using assms(1,2,4-7) by (rule write_then_read_rounds)

theorem writeOFF_readOFF_roundtrip_witness:
  "write_then_read [0, 0, 0, 1 / 2, 0, 0, 3602879701896397 / 36028797018963968, - 1, 1]
       [0, 1, 2, 2, 1, 0, 4294967295] [3, 4] 3 2
     = Some (Inr \<lparr>pVertices = [0, 0, 0, 1 / 2, 0, 0, 3602879701896397 / 36028797018963968, - 1, 1],
                    pFaceVertexIndices = [Some 0, Some 1, Some 2, Some 2, Some 1, Some 0, Some 4294967295],
                    pFaceSizes = [3, 4], numVertices = 3, numFaces = 2\<rparr>)"
  using writeOFF_readOFF_roundtrip
      [of "[0, 0, 0, 1 / 2, 0, 0, 3602879701896397 / 36028797018963968, - 1, 1]" 3 "[3, 4]" 2
        "[0, 1, 2, 2, 1, 0, 4294967295]"]
  by (simp add: reread_def round6_tenth round6_fixed to_double_fixed to_double_tenth
        is_double_examples)

end
